theory Spec2Isabelle
  imports Main "HOL-Library.Multiset" "HOL-Library.Product_Lexorder"
begin

section \<open>Errors\<close>

text \<open>
  The Python sources raise plain \<open>Exception\<close> objects that differ only in their message,
  and rely on the built-in \<open>IndexError\<close> and \<open>KeyError\<close> of list and dict access.
  Each distinct failure is one constructor:
  \<^item> \<open>EmptyHeap\<close>: \<open>Exception("The heap is empty.")\<close> raised by \<open>Heap.delete\<close>;
  \<^item> \<open>ElementNotFound\<close>: \<open>Exception("The element is not in the heap.")\<close> raised by \<open>Heap.delete\<close>;
  \<^item> \<open>Underflow\<close>: \<open>Exception("Underflow")\<close> raised by \<open>PriorityQueue.dequeue\<close>;
  \<^item> \<open>IndexError\<close>: a list read out of range;
  \<^item> \<open>KeyError\<close>: a dict read at a missing key.
\<close>

datatype error = EmptyHeap | ElementNotFound | Underflow | IndexError | KeyError

section \<open>Binary heap of graph\_heap\_pq.py\<close>

record 'a Heap =
  data :: "'a list"
  config :: bool

definition left :: "nat \<Rightarrow> nat" where
  "left index = 2 * index + 1"

definition right :: "nat \<Rightarrow> nat" where
  "right index = 2 * (index + 1)"

text \<open>\<open>Heap.parent\<close>: \<open>(index - 1) // 2\<close>; only read at a non-root index here.\<close>

definition heap_parent :: "nat \<Rightarrow> nat" where
  "heap_parent index = (index - 1) div 2"

text \<open>
  \<open>max_heapify\<close> and \<open>min_heapify\<close> work on the backing list. The guard
  \<open>left_index < len(self)\<close> is evaluated before the element is read, so no read is out of
  range. The swap evaluates both right-hand sides first, then writes \<open>largest_index\<close> and
  \<open>index\<close> in this order.
\<close>

function max_heapify :: "('a::linorder) list \<Rightarrow> nat \<Rightarrow> 'a list" where
  "max_heapify d index =
     (let left_index = left index; right_index = right index;
          largest0 = index;
          largest1 = (if left_index < length d \<and> d ! largest0 < d ! left_index
                      then left_index else largest0);
          largest_index = (if right_index < length d \<and> d ! largest1 < d ! right_index
                      then right_index else largest1)
      in if largest_index \<noteq> index
         then max_heapify (d[largest_index := d ! index, index := d ! largest_index]) largest_index
         else d)"
  by pat_completeness auto
termination
  by (relation "measure (\<lambda>(d, index). length d - index)")
     (auto simp: left_def right_def Let_def split: if_splits)

function min_heapify :: "('a::linorder) list \<Rightarrow> nat \<Rightarrow> 'a list" where
  "min_heapify d index =
     (let left_index = left index; right_index = right index;
          smallest0 = index;
          smallest1 = (if left_index < length d \<and> d ! left_index < d ! smallest0
                       then left_index else smallest0);
          smallest_index = (if right_index < length d \<and> d ! right_index < d ! smallest1
                       then right_index else smallest1)
      in if smallest_index \<noteq> index
         then min_heapify (d[smallest_index := d ! index, index := d ! smallest_index]) smallest_index
         else d)"
  by pat_completeness auto
termination
  by (relation "measure (\<lambda>(d, index). length d - index)")
     (auto simp: left_def right_def Let_def split: if_splits)

declare max_heapify.simps [simp del]
declare min_heapify.simps [simp del]

definition heapify :: "('a::linorder) Heap \<Rightarrow> nat \<Rightarrow> 'a Heap" where
  "heapify h index =
     (if config h then h\<lparr>data := max_heapify (data h) index\<rparr>
      else h\<lparr>data := min_heapify (data h) index\<rparr>)"

text \<open>
  \<open>build(data=[])\<close>: a non-empty argument replaces the backing list; then
  \<open>range(len(self) // 2, -1, -1)\<close> visits \<open>len // 2, ..., 1, 0\<close>.
\<close>

definition build :: "('a::linorder) Heap \<Rightarrow> 'a list \<Rightarrow> 'a Heap" where
  "build h new =
     (let h1 = (if new \<noteq> [] then h\<lparr>data := new\<rparr> else h)
      in foldl heapify h1 (rev [0 ..< length (data h1) div 2 + 1]))"

text \<open>\<open>Heap.__init__(data, config)\<close>: empty list, the configuration, then \<open>build(data[:])\<close>.\<close>

definition Heap_init :: "('a::linorder) list \<Rightarrow> bool \<Rightarrow> 'a Heap" where
  "Heap_init xs cfg = build \<lparr>data = [], config = cfg\<rparr> xs"

definition insert_heap :: "('a::linorder) Heap \<Rightarrow> 'a \<Rightarrow> 'a Heap" where
  "insert_heap h new = build (h\<lparr>data := data h @ [new]\<rparr>) []"

text \<open>\<open>list.remove\<close> deletes the first equal element: \<open>remove1\<close>.\<close>

definition delete :: "('a::linorder) Heap \<Rightarrow> 'a \<Rightarrow> error + 'a Heap" where
  "delete h to_delete =
     (if length (data h) = 0 then Inl EmptyHeap
      else if to_delete \<notin> set (data h) then Inl ElementNotFound
      else Inr (build (h\<lparr>data := remove1 to_delete (data h)\<rparr>) []))"

text \<open>\<open>list.index\<close>: position of the first equal element, \<open>ValueError\<close> (here \<open>None\<close>) if absent.\<close>

fun index_of :: "'a \<Rightarrow> 'a list \<Rightarrow> nat option" where
  "index_of x [] = None"
| "index_of x (y # ys) = (if y = x then Some 0 else map_option Suc (index_of x ys))"

text \<open>
  \<open>Heap.update\<close> of graph\_heap\_pq.py: overwrite in place and sift down from that index;
  the \<open>ValueError\<close> of a missing element is caught and nothing is done.
\<close>

definition update :: "('a::linorder) Heap \<Rightarrow> 'a \<Rightarrow> 'a \<Rightarrow> 'a Heap" where
  "update h old new =
     (case index_of old (data h) of
        None \<Rightarrow> h
      | Some index \<Rightarrow> heapify (h\<lparr>data := (data h)[index := new]\<rparr>) index)"

text \<open>\<open>Heap.peek\<close>: \<open>self.data[0]\<close>, an \<open>IndexError\<close> on the empty list.\<close>

definition peek :: "'a Heap \<Rightarrow> error + 'a" where
  "peek h = (case data h of [] \<Rightarrow> Inl IndexError | x # _ \<Rightarrow> Inr x)"

section \<open>Priority queue of graph\_heap\_pq.py\<close>

text \<open>\<open>PriorityQueue\<close> has the single field \<open>data\<close>, a \<open>Heap\<close>; the queue is that heap.\<close>

type_synonym 'a PriorityQueue = "'a Heap"

definition PriorityQueue_init :: "('a::linorder) list \<Rightarrow> bool \<Rightarrow> 'a PriorityQueue" where
  "PriorityQueue_init xs cfg = Heap_init xs cfg"

definition enqueue :: "('a::linorder) PriorityQueue \<Rightarrow> 'a \<Rightarrow> 'a PriorityQueue" where
  "enqueue q new = insert_heap q new"

definition dequeue :: "('a::linorder) PriorityQueue \<Rightarrow> error + ('a \<times> 'a PriorityQueue)" where
  "dequeue q =
     (if length (data q) = 0 then Inl Underflow
      else case peek q of
             Inl e \<Rightarrow> Inl e
           | Inr to_dequeue \<Rightarrow>
               (case delete q to_dequeue of
                  Inl e \<Rightarrow> Inl e
                | Inr q' \<Rightarrow> Inr (to_dequeue, q')))"

definition pq_update :: "('a::linorder) PriorityQueue \<Rightarrow> 'a \<Rightarrow> 'a \<Rightarrow> 'a PriorityQueue" where
  "pq_update q old new = update q old new"

section \<open>Binary heap and priority queue of heap\_priority\_queue.py\<close>

text \<open>
  This file has its own \<open>Heap\<close> class. \<open>left\<close>, \<open>right\<close>, \<open>parent\<close>,
  \<open>max_heapify\<close>, \<open>insert\<close>, \<open>delete\<close>, \<open>build\<close> and \<open>peek\<close> read as in
  graph\_heap\_pq.py. Two methods differ: \<open>min_heapify\<close> is a placeholder that returns at
  once, and \<open>update\<close> deletes the old value and inserts the new one.
\<close>

definition min_heapify_hpq :: "('a::linorder) list \<Rightarrow> nat \<Rightarrow> 'a list" where
  "min_heapify_hpq d index = d"

definition heapify_hpq :: "('a::linorder) Heap \<Rightarrow> nat \<Rightarrow> 'a Heap" where
  "heapify_hpq h index =
     (if config h then h\<lparr>data := max_heapify (data h) index\<rparr>
      else h\<lparr>data := min_heapify_hpq (data h) index\<rparr>)"

definition build_hpq :: "('a::linorder) Heap \<Rightarrow> 'a list \<Rightarrow> 'a Heap" where
  "build_hpq h new =
     (let h1 = (if new \<noteq> [] then h\<lparr>data := new\<rparr> else h)
      in foldl heapify_hpq h1 (rev [0 ..< length (data h1) div 2 + 1]))"

definition Heap_init_hpq :: "('a::linorder) list \<Rightarrow> bool \<Rightarrow> 'a Heap" where
  "Heap_init_hpq xs cfg = build_hpq \<lparr>data = [], config = cfg\<rparr> xs"

definition insert_hpq :: "('a::linorder) Heap \<Rightarrow> 'a \<Rightarrow> 'a Heap" where
  "insert_hpq h new = build_hpq (h\<lparr>data := data h @ [new]\<rparr>) []"

definition delete_hpq :: "('a::linorder) Heap \<Rightarrow> 'a \<Rightarrow> error + 'a Heap" where
  "delete_hpq h to_delete =
     (if length (data h) = 0 then Inl EmptyHeap
      else if to_delete \<notin> set (data h) then Inl ElementNotFound
      else Inr (build_hpq (h\<lparr>data := remove1 to_delete (data h)\<rparr>) []))"

definition update_hpq :: "('a::linorder) Heap \<Rightarrow> 'a \<Rightarrow> 'a \<Rightarrow> error + 'a Heap" where
  "update_hpq h old new =
     (case delete_hpq h old of
        Inl e \<Rightarrow> Inl e
      | Inr h' \<Rightarrow> Inr (insert_hpq h' new))"

definition PriorityQueue_init_hpq :: "('a::linorder) list \<Rightarrow> bool \<Rightarrow> 'a PriorityQueue" where
  "PriorityQueue_init_hpq xs cfg = Heap_init_hpq xs cfg"

definition enqueue_hpq :: "('a::linorder) PriorityQueue \<Rightarrow> 'a \<Rightarrow> 'a PriorityQueue" where
  "enqueue_hpq q new = insert_hpq q new"

definition dequeue_hpq :: "('a::linorder) PriorityQueue \<Rightarrow> error + ('a \<times> 'a PriorityQueue)" where
  "dequeue_hpq q =
     (if length (data q) = 0 then Inl Underflow
      else case peek q of
             Inl e \<Rightarrow> Inl e
           | Inr to_dequeue \<Rightarrow>
               (case delete_hpq q to_dequeue of
                  Inl e \<Rightarrow> Inl e
                | Inr q' \<Rightarrow> Inr (to_dequeue, q')))"

section \<open>Vertex properties\<close>

text \<open>
  A distance is a Python number or \<open>math.inf\<close>. \<open>Infty\<close> is above every finite value,
  equal to itself, and absorbs addition, as the float infinity does.
\<close>

datatype dist = Fin int | Infty

fun dist_add :: "dist \<Rightarrow> int \<Rightarrow> dist" where
  "dist_add (Fin a) w = Fin (a + w)"
| "dist_add Infty w = Infty"

fun dist_le :: "dist \<Rightarrow> dist \<Rightarrow> bool" where
  "dist_le (Fin a) (Fin b) = (a \<le> b)"
| "dist_le _ Infty = True"
| "dist_le Infty (Fin b) = False"

instantiation dist :: linorder
begin

definition less_eq_dist :: "dist \<Rightarrow> dist \<Rightarrow> bool" where
  "less_eq_dist a b = dist_le a b"

definition less_dist :: "dist \<Rightarrow> dist \<Rightarrow> bool" where
  "less_dist a b = (dist_le a b \<and> \<not> dist_le b a)"

instance
proof
  fix x y z :: dist
  show "(x < y) = (x \<le> y \<and> \<not> y \<le> x)"
    by (simp add: less_dist_def less_eq_dist_def)
  show "x \<le> x"
    by (cases x) (simp_all add: less_eq_dist_def)
  show "x \<le> y \<Longrightarrow> y \<le> z \<Longrightarrow> x \<le> z"
    by (cases x; cases y; cases z) (simp_all add: less_eq_dist_def)
  show "x \<le> y \<Longrightarrow> y \<le> x \<Longrightarrow> x = y"
    by (cases x; cases y) (simp_all add: less_eq_dist_def)
  show "x \<le> y \<or> y \<le> x"
    by (cases x; cases y) (auto simp: less_eq_dist_def)
qed

end

datatype color = WHITE | GRAY | BLACK

record 'v vprops =
  color :: color
  distance :: dist
  parent :: "'v option"

type_synonym 'v table = "'v \<rightharpoonup> 'v vprops"

section \<open>Weighted graph of graph\_heap\_pq.py\<close>

text \<open>
  A relation is a triple \<open>(source, destination, weight)\<close>. Dicts are maps; the adjacency
  matrix is a list of rows.
\<close>

type_synonym 'v relation = "'v \<times> 'v \<times> int"

record 'v Graph =
  directed :: bool
  view :: bool
  vertexes :: "'v list"
  relations :: "'v relation list"
  adjList :: "'v \<rightharpoonup> ('v \<times> int) list"
  encoder :: "'v \<rightharpoonup> nat"
  decoder :: "nat \<rightharpoonup> 'v"
  adjMat :: "int list list"
  weight :: "('v \<times> 'v) \<rightharpoonup> int"

text \<open>
  \<open>_buildRelation\<close>: a directed graph keeps the argument; an undirected one collects each
  relation and its reverse in a Python \<open>set\<close>, and the later loops over
  \<open>self.relations\<close> walk that set. The order in which a set is walked follows from the
  hashes of its elements and is not in the source. It is the parameter \<open>walk\<close>, which
  takes the distinct elements in the order of their insertion and returns them in the
  order of the walk. \<open>iterates walk\<close>: a walk visits the elements of the set, each once.
  The set is not changed after \<open>_buildRelation\<close>, so every loop walks it in the same
  order.
\<close>

definition iterates :: "('a list \<Rightarrow> 'a list) \<Rightarrow> bool" where
  "iterates walk = (\<forall>xs. mset (walk xs) = mset xs)"

definition set_add :: "'a list \<Rightarrow> 'a \<Rightarrow> 'a list" where
  "set_add s x = (if x \<in> set s then s else s @ [x])"

fun buildRelation_loop :: "'v relation list \<Rightarrow> 'v relation list \<Rightarrow> 'v relation list" where
  "buildRelation_loop s [] = s"
| "buildRelation_loop s ((u, v, w) # e) =
     buildRelation_loop (set_add (set_add s (u, v, w)) (v, u, w)) e"

definition buildRelation ::
  "('v relation list \<Rightarrow> 'v relation list) \<Rightarrow> bool \<Rightarrow> 'v relation list \<Rightarrow> 'v relation list" where
  "buildRelation walk dir e = (if dir then e else walk (buildRelation_loop [] e))"

text \<open>\<open>_buildAdjList\<close>: a relation whose source has no entry raises \<open>KeyError\<close>.\<close>

fun buildAdjList_loop ::
  "('v \<rightharpoonup> ('v \<times> int) list) \<Rightarrow> 'v relation list \<Rightarrow> error + ('v \<rightharpoonup> ('v \<times> int) list)" where
  "buildAdjList_loop al [] = Inr al"
| "buildAdjList_loop al ((u, v, w) # rs) =
     (case al u of
        None \<Rightarrow> Inl KeyError
      | Some ns \<Rightarrow> buildAdjList_loop (al(u \<mapsto> ns @ [(v, w)])) rs)"

definition buildAdjList :: "'v list \<Rightarrow> 'v relation list \<Rightarrow> error + ('v \<rightharpoonup> ('v \<times> int) list)" where
  "buildAdjList vs rs = buildAdjList_loop (foldl (\<lambda>al v. al(v \<mapsto> [])) Map.empty vs) rs"

text \<open>\<open>_buildEncoding\<close>: the running index is stored for each vertex in turn.\<close>

fun buildEncoding_loop ::
  "'v list \<Rightarrow> nat \<Rightarrow> ('v \<rightharpoonup> nat) \<times> (nat \<rightharpoonup> 'v) \<Rightarrow> ('v \<rightharpoonup> nat) \<times> (nat \<rightharpoonup> 'v)" where
  "buildEncoding_loop [] index (enc, dec) = (enc, dec)"
| "buildEncoding_loop (v # vs) index (enc, dec) =
     buildEncoding_loop vs (index + 1) (enc(v \<mapsto> index), dec(index \<mapsto> v))"

definition buildEncoding :: "'v list \<Rightarrow> ('v \<rightharpoonup> nat) \<times> (nat \<rightharpoonup> 'v)" where
  "buildEncoding vs = buildEncoding_loop vs 0 (Map.empty, Map.empty)"

text \<open>
  \<open>_buildAdjMatrix\<close>: an \<open>n \<times> n\<close> matrix of zeros; each relation writes its weight at
  \<open>[encoder[source]][encoder[destination]]\<close>. A missing vertex raises \<open>KeyError\<close>, a write
  out of range \<open>IndexError\<close>.
\<close>

definition set_cell :: "'a list list \<Rightarrow> nat \<Rightarrow> nat \<Rightarrow> 'a \<Rightarrow> error + 'a list list" where
  "set_cell m row col x =
     (if row < length m \<and> col < length (m ! row)
      then Inr (m[row := (m ! row)[col := x]])
      else Inl IndexError)"

fun buildAdjMatrix_loop ::
  "('v \<rightharpoonup> nat) \<Rightarrow> int list list \<Rightarrow> 'v relation list \<Rightarrow> error + int list list" where
  "buildAdjMatrix_loop enc m [] = Inr m"
| "buildAdjMatrix_loop enc m ((u, v, w) # rs) =
     (case enc u of
        None \<Rightarrow> Inl KeyError
      | Some row \<Rightarrow>
         (case enc v of
            None \<Rightarrow> Inl KeyError
          | Some col \<Rightarrow>
             (case set_cell m row col w of
                Inl e \<Rightarrow> Inl e
              | Inr m' \<Rightarrow> buildAdjMatrix_loop enc m' rs)))"

definition buildAdjMatrix ::
  "'v list \<Rightarrow> ('v \<rightharpoonup> nat) \<Rightarrow> 'v relation list \<Rightarrow> error + int list list" where
  "buildAdjMatrix vs enc rs =
     buildAdjMatrix_loop enc (replicate (length vs) (replicate (length vs) 0)) rs"

definition buildWeight :: "'v relation list \<Rightarrow> (('v \<times> 'v) \<rightharpoonup> int)" where
  "buildWeight rs = foldl (\<lambda>wt (u, v, w). wt((u, v) \<mapsto> w)) Map.empty rs"

text \<open>\<open>Graph.__init__(v, e, directed, view)\<close>, in the order of the source.\<close>

definition Graph_init ::
  "('v relation list \<Rightarrow> 'v relation list) \<Rightarrow> 'v list \<Rightarrow> 'v relation list \<Rightarrow> bool \<Rightarrow> bool
     \<Rightarrow> error + 'v Graph" where
  "Graph_init walk v e dir vw =
     (let rs = buildRelation walk dir e in
      case buildAdjList v rs of
        Inl err \<Rightarrow> Inl err
      | Inr al \<Rightarrow>
         (let (enc, dec) = buildEncoding v in
          case buildAdjMatrix v enc rs of
            Inl err \<Rightarrow> Inl err
          | Inr m \<Rightarrow>
              Inr \<lparr>directed = dir, view = vw, vertexes = v, relations = rs, adjList = al,
                   encoder = enc, decoder = dec, adjMat = m, weight = buildWeight rs\<rparr>))"

text \<open>
  \<open>_buildVProps(source)\<close> of graph\_heap\_pq.py: every vertex white, at infinity, without
  parent; then only the distance of the source is overwritten (a \<open>KeyError\<close> if the source
  has no entry). The source stays white.
\<close>

definition buildVProps :: "'v Graph \<Rightarrow> 'v option \<Rightarrow> error + 'v table" where
  "buildVProps g source =
     (let vp = foldl (\<lambda>t v. t(v \<mapsto> \<lparr>color = WHITE, distance = Infty, parent = None\<rparr>))
                 Map.empty (vertexes g)
      in case source of
           None \<Rightarrow> Inr vp
         | Some s \<Rightarrow>
            (case vp s of
               None \<Rightarrow> Inl KeyError
             | Some p \<Rightarrow> Inr (vp(s \<mapsto> p\<lparr>distance := Fin 0\<rparr>))))"

definition getNeighborsAdjList :: "'v Graph \<Rightarrow> 'v \<Rightarrow> error + ('v \<times> int) list" where
  "getNeighborsAdjList g vertex =
     (case adjList g vertex of None \<Rightarrow> Inl KeyError | Some ns \<Rightarrow> Inr ns)"

definition getNeighbors :: "'v Graph \<Rightarrow> 'v \<Rightarrow> error + ('v \<times> int) list" where
  "getNeighbors g vertex = getNeighborsAdjList g vertex"

subsection \<open>Breadth-first search\<close>

text \<open>The inner \<open>for\<close> loop of \<open>bfs\<close> over the neighbours of \<open>u\<close>.\<close>

fun bfs_neighbors ::
  "'v \<Rightarrow> ('v \<times> int) list \<Rightarrow> 'v list \<times> 'v table \<Rightarrow> error + ('v list \<times> 'v table)" where
  "bfs_neighbors u [] (queue, vp) = Inr (queue, vp)"
| "bfs_neighbors u ((neighbor, w) # ns) (queue, vp) =
     (case vp neighbor of
        None \<Rightarrow> Inl KeyError
      | Some pn \<Rightarrow>
         if color pn = WHITE
         then (case vp u of
                 None \<Rightarrow> Inl KeyError
               | Some pu \<Rightarrow>
                  bfs_neighbors u ns
                    (queue @ [neighbor],
                     vp(neighbor \<mapsto> pn\<lparr>color := GRAY,
                                           distance := dist_add (distance pu) 1,
                                           parent := Some u\<rparr>)))
         else bfs_neighbors u ns (queue, vp))"

text \<open>
  The \<open>while len(queue) > 0\<close> loop. A run that never leaves the loop has the value
  \<open>None\<close>.
\<close>

partial_function (option) bfs_loop ::
  "'v Graph \<Rightarrow> 'v list \<Rightarrow> 'v table \<Rightarrow> (error + 'v table) option" where
  "bfs_loop g queue vp =
     (case queue of
        [] \<Rightarrow> Some (Inr vp)
      | u # rest \<Rightarrow>
         (case getNeighbors g u of
            Inl e \<Rightarrow> Some (Inl e)
          | Inr ns \<Rightarrow>
             (case bfs_neighbors u ns (rest, vp) of
                Inl e \<Rightarrow> Some (Inl e)
              | Inr (queue', vp') \<Rightarrow>
                 (case vp' u of
                    None \<Rightarrow> Some (Inl KeyError)
                  | Some pu \<Rightarrow> bfs_loop g queue' (vp'(u \<mapsto> pu\<lparr>color := BLACK\<rparr>))))))"

declare bfs_loop.simps [code]

definition bfs :: "'v Graph \<Rightarrow> 'v \<Rightarrow> (error + 'v table) option" where
  "bfs g source =
     (case buildVProps g (Some source) of
        Inl e \<Rightarrow> Some (Inl e)
      | Inr vp \<Rightarrow> bfs_loop g [source] vp)"

subsection \<open>Path reconstruction\<close>

text \<open>
  \<open>getPath(vertex, v_props)\<close>, the same text in graph\_heap\_pq.py and labyrinth\_graph.py:
  parents are prepended until a vertex without parent is met. There is no test of the
  distance. A walk that never meets such a vertex has the value \<open>None\<close>.
\<close>

partial_function (option) getPath_loop ::
  "'v table \<Rightarrow> 'v \<Rightarrow> 'v list \<Rightarrow> (error + 'v list) option" where
  "getPath_loop v_props current path =
     (case v_props current of
        None \<Rightarrow> Some (Inl KeyError)
      | Some p \<Rightarrow>
         (case parent p of
            None \<Rightarrow> Some (Inr path)
          | Some q \<Rightarrow> getPath_loop v_props q (q # path)))"

declare getPath_loop.simps [code]

definition getPath :: "'v \<Rightarrow> 'v table \<Rightarrow> (error + 'v list) option" where
  "getPath vertex v_props = getPath_loop v_props vertex [vertex]"

subsection \<open>Dijkstra with the priority queue\<close>

text \<open>
  The queue holds pairs \<open>(distance, vertex)\<close>; Python compares tuples lexicographically,
  which is the order of pairs used here. The state of the \<open>while\<close> loop is the queue, the
  \<open>in_queue\<close> dict and the vertex properties.
\<close>

record 'v dijkstra_state =
  QS :: "(dist \<times> 'v) PriorityQueue"
  in_queue :: "'v \<rightharpoonup> bool"
  v_props :: "'v table"

text \<open>The list comprehension \<open>[(self.v_props[v]['distance'], v) for v in self.vertexes]\<close>.\<close>

fun initial_entries :: "'v table \<Rightarrow> 'v list \<Rightarrow> error + (dist \<times> 'v) list" where
  "initial_entries vp [] = Inr []"
| "initial_entries vp (v # vs) =
     (case vp v of
        None \<Rightarrow> Inl KeyError
      | Some p \<Rightarrow>
         (case initial_entries vp vs of
            Inl e \<Rightarrow> Inl e
          | Inr es \<Rightarrow> Inr ((distance p, v) # es)))"

text \<open>The inner \<open>for neighbor, weight in self.getNeighbors(u)\<close> loop.\<close>

fun relax ::
  "('v::linorder) \<Rightarrow> ('v \<times> int) list \<Rightarrow> 'v dijkstra_state \<Rightarrow> error + 'v dijkstra_state" where
  "relax u [] st = Inr st"
| "relax u ((neighbor, w) # ns) st =
     (case v_props st neighbor of
        None \<Rightarrow> Inl KeyError
      | Some pn \<Rightarrow>
         (case v_props st u of
            None \<Rightarrow> Inl KeyError
          | Some pu \<Rightarrow>
             if distance pn > dist_add (distance pu) w
             then (let old_distance = distance pn;
                       new_distance = dist_add (distance pu) w;
                       vp' = (v_props st)(neighbor \<mapsto> pn\<lparr>distance := new_distance, parent := Some u\<rparr>)
                   in case in_queue st neighbor of
                        None \<Rightarrow> Inl KeyError
                      | Some b \<Rightarrow>
                         relax u ns
                           (st\<lparr>v_props := vp',
                               QS := (if b then pq_update (QS st) (old_distance, neighbor)
                                                             (new_distance, neighbor)
                                      else QS st)\<rparr>))
             else relax u ns st))"

function dijkstra_loop :: "('v::linorder) Graph \<Rightarrow> 'v dijkstra_state \<Rightarrow> error + 'v table" where
  "dijkstra_loop g st =
     (if length (data (QS st)) > 0
      then (case dequeue (QS st) of
              Inl e \<Rightarrow> Inl e
            | Inr ((d, u), q') \<Rightarrow>
               (case getNeighbors g u of
                  Inl e \<Rightarrow> Inl e
                | Inr ns \<Rightarrow>
                   (case relax u ns (st\<lparr>QS := q', in_queue := (in_queue st)(u \<mapsto> False)\<rparr>) of
                      Inl e \<Rightarrow> Inl e
                    | Inr st' \<Rightarrow> dijkstra_loop g st')))
      else Inr (v_props st))"
  by pat_completeness auto

definition dijkstraP :: "('v::linorder) Graph \<Rightarrow> 'v \<Rightarrow> error + 'v table" where
  "dijkstraP g s =
     (case buildVProps g (Some s) of
        Inl e \<Rightarrow> Inl e
      | Inr vp \<Rightarrow>
         (case initial_entries vp (vertexes g) of
            Inl e \<Rightarrow> Inl e
          | Inr es \<Rightarrow>
             dijkstra_loop g
               \<lparr>QS = PriorityQueue_init es False,
                in_queue = foldl (\<lambda>m v. m(v \<mapsto> True)) Map.empty (vertexes g),
                v_props = vp\<rparr>))"

section \<open>Unweighted graph of labyrinth\_graph.py\<close>

text \<open>
  A relation is a pair. \<open>__init__\<close> stores the relations as given and never reads
  \<open>directed\<close>; the method \<open>_init_\<close> (single underscores, not called by the constructor)
  is the one that goes through \<open>_buildRelation\<close>.
\<close>

record 'v LabGraph =
  lab_directed :: bool
  lab_view :: bool
  lab_vertexes :: "'v list"
  lab_relations :: "('v \<times> 'v) list"
  lab_adjList :: "'v \<rightharpoonup> 'v list"
  lab_encoder :: "'v \<rightharpoonup> nat"
  lab_decoder :: "nat \<rightharpoonup> 'v"
  lab_adjMat :: "int list list"

fun lab_buildRelation_loop :: "('v \<times> 'v) list \<Rightarrow> ('v \<times> 'v) list \<Rightarrow> ('v \<times> 'v) list" where
  "lab_buildRelation_loop s [] = s"
| "lab_buildRelation_loop s ((u, v) # e) =
     lab_buildRelation_loop (set_add (set_add s (u, v)) (v, u)) e"

definition lab_buildRelation ::
  "(('v \<times> 'v) list \<Rightarrow> ('v \<times> 'v) list) \<Rightarrow> bool \<Rightarrow> ('v \<times> 'v) list \<Rightarrow> ('v \<times> 'v) list" where
  "lab_buildRelation walk dir e = (if dir then e else walk (lab_buildRelation_loop [] e))"

fun lab_buildAdjList_loop ::
  "('v \<rightharpoonup> 'v list) \<Rightarrow> ('v \<times> 'v) list \<Rightarrow> error + ('v \<rightharpoonup> 'v list)" where
  "lab_buildAdjList_loop al [] = Inr al"
| "lab_buildAdjList_loop al ((u, v) # rs) =
     (case al u of
        None \<Rightarrow> Inl KeyError
      | Some ns \<Rightarrow> lab_buildAdjList_loop (al(u \<mapsto> ns @ [v])) rs)"

definition lab_buildAdjList :: "'v list \<Rightarrow> ('v \<times> 'v) list \<Rightarrow> error + ('v \<rightharpoonup> 'v list)" where
  "lab_buildAdjList vs rs = lab_buildAdjList_loop (foldl (\<lambda>al v. al(v \<mapsto> [])) Map.empty vs) rs"

fun lab_buildAdjMatrix_loop ::
  "('v \<rightharpoonup> nat) \<Rightarrow> int list list \<Rightarrow> ('v \<times> 'v) list \<Rightarrow> error + int list list" where
  "lab_buildAdjMatrix_loop enc m [] = Inr m"
| "lab_buildAdjMatrix_loop enc m ((u, v) # rs) =
     (case enc u of
        None \<Rightarrow> Inl KeyError
      | Some row \<Rightarrow>
         (case enc v of
            None \<Rightarrow> Inl KeyError
          | Some col \<Rightarrow>
             (case set_cell m row col 1 of
                Inl e \<Rightarrow> Inl e
              | Inr m' \<Rightarrow> lab_buildAdjMatrix_loop enc m' rs)))"

definition lab_buildAdjMatrix ::
  "'v list \<Rightarrow> ('v \<rightharpoonup> nat) \<Rightarrow> ('v \<times> 'v) list \<Rightarrow> error + int list list" where
  "lab_buildAdjMatrix vs enc rs =
     lab_buildAdjMatrix_loop enc (replicate (length vs) (replicate (length vs) 0)) rs"

text \<open>The common tail of \<open>__init__\<close> and \<open>_init_\<close>: list, encoding, matrix.\<close>

definition lab_build_views ::
  "'v list \<Rightarrow> ('v \<times> 'v) list \<Rightarrow> bool \<Rightarrow> bool \<Rightarrow> error + 'v LabGraph" where
  "lab_build_views v rs dir vw =
     (case lab_buildAdjList v rs of
        Inl err \<Rightarrow> Inl err
      | Inr al \<Rightarrow>
         (let (enc, dec) = buildEncoding v in
          case lab_buildAdjMatrix v enc rs of
            Inl err \<Rightarrow> Inl err
          | Inr m \<Rightarrow>
              Inr \<lparr>lab_directed = dir, lab_view = vw, lab_vertexes = v, lab_relations = rs,
                   lab_adjList = al, lab_encoder = enc, lab_decoder = dec, lab_adjMat = m\<rparr>))"

text \<open>\<open>Graph.__init__(vertexes, relations, directed, view)\<close>.\<close>

definition LabGraph_init ::
  "'v list \<Rightarrow> ('v \<times> 'v) list \<Rightarrow> bool \<Rightarrow> bool \<Rightarrow> error + 'v LabGraph" where
  "LabGraph_init v relations0 dir vw = lab_build_views v relations0 dir vw"

text \<open>\<open>Graph._init_(v, e, directed, view)\<close>, the alternative initialiser.\<close>

definition LabGraph_init_alt ::
  "(('v \<times> 'v) list \<Rightarrow> ('v \<times> 'v) list) \<Rightarrow> 'v list \<Rightarrow> ('v \<times> 'v) list \<Rightarrow> bool \<Rightarrow> bool
     \<Rightarrow> error + 'v LabGraph" where
  "LabGraph_init_alt walk v e dir vw = lab_build_views v (lab_buildRelation walk dir e) dir vw"

definition lab_getNeighborsAdjList :: "'v LabGraph \<Rightarrow> 'v \<Rightarrow> error + 'v list" where
  "lab_getNeighborsAdjList g vertex =
     (case lab_adjList g vertex of None \<Rightarrow> Inl KeyError | Some ns \<Rightarrow> Inr ns)"

text \<open>
  The \<open>enumerate\<close> loop of \<open>_getNeighborsMatAdj\<close>: the columns whose cell is marked are
  decoded in index order. The test on the cell is a parameter: the source tests
  \<open>cell == 1\<close>.
\<close>

fun scanRow :: "(int \<Rightarrow> bool) \<Rightarrow> (nat \<rightharpoonup> 'v) \<Rightarrow> nat \<Rightarrow> int list \<Rightarrow> error + 'v list" where
  "scanRow marked dec i [] = Inr []"
| "scanRow marked dec i (cell # cells) =
     (if marked cell
      then (case dec i of
              None \<Rightarrow> Inl KeyError
            | Some v \<Rightarrow>
               (case scanRow marked dec (i + 1) cells of
                  Inl e \<Rightarrow> Inl e
                | Inr vs \<Rightarrow> Inr (v # vs)))
      else scanRow marked dec (i + 1) cells)"

text \<open>\<open>_getNeighborsMatAdj(vertex)\<close>: the argument is the index of the row.\<close>

definition lab_getNeighborsMatAdj :: "'v LabGraph \<Rightarrow> nat \<Rightarrow> error + 'v list" where
  "lab_getNeighborsMatAdj g vertex =
     (if vertex < length (lab_adjMat g)
      then scanRow (\<lambda>cell. cell = 1) (lab_decoder g) 0 (lab_adjMat g ! vertex)
      else Inl IndexError)"

section \<open>Properties stated about the code\<close>

subsection \<open>Heap order\<close>

text \<open>
  The configured order between a parent and a child: the parent is not below the child
  in a max-heap (\<open>config = True\<close>), not above it in a min-heap. \<open>heap_inv\<close> asks it of
  every non-root index and its parent \<open>(i - 1) // 2\<close>; \<open>inv_from\<close> asks it only of the
  children of the indices from \<open>k\<close> on, which is what \<open>build\<close> has established after it
  has visited index \<open>k\<close>.
\<close>

definition heap_order :: "bool \<Rightarrow> ('a::linorder) \<Rightarrow> 'a \<Rightarrow> bool" where
  "heap_order cfg p c = (if cfg then c \<le> p else p \<le> c)"

definition heap_inv :: "bool \<Rightarrow> ('a::linorder) list \<Rightarrow> bool" where
  "heap_inv cfg d = (\<forall>i \<in> {1 ..< length d}. heap_order cfg (d ! heap_parent i) (d ! i))"

definition inv_from :: "bool \<Rightarrow> ('a::linorder) list \<Rightarrow> nat \<Rightarrow> bool" where
  "inv_from cfg d k =
     (\<forall>j. 0 < j \<and> j < length d \<and> k \<le> heap_parent j \<longrightarrow> heap_order cfg (d ! heap_parent j) (d ! j))"

subsection \<open>Sequences of heap operations\<close>

text \<open>
  An operation that raises leaves the heap as it was (every \<open>raise\<close> comes before the
  first write), and the caller may go on with the next one.
\<close>

datatype 'a heap_op = Insert 'a | Delete 'a | Update 'a 'a

fun apply_op :: "('a::linorder) Heap \<Rightarrow> 'a heap_op \<Rightarrow> error + 'a Heap" where
  "apply_op h (Insert x) = Inr (insert_heap h x)"
| "apply_op h (Delete x) = delete h x"
| "apply_op h (Update old new) = Inr (update h old new)"

fun run_ops :: "('a::linorder) Heap \<Rightarrow> 'a heap_op list \<Rightarrow> 'a Heap" where
  "run_ops h [] = h"
| "run_ops h (x # ops) = run_ops (case apply_op h x of Inl e \<Rightarrow> h | Inr h' \<Rightarrow> h') ops"

fun apply_op_hpq :: "('a::linorder) Heap \<Rightarrow> 'a heap_op \<Rightarrow> error + 'a Heap" where
  "apply_op_hpq h (Insert x) = Inr (insert_hpq h x)"
| "apply_op_hpq h (Delete x) = delete_hpq h x"
| "apply_op_hpq h (Update old new) = update_hpq h old new"

fun run_ops_hpq :: "('a::linorder) Heap \<Rightarrow> 'a heap_op list \<Rightarrow> 'a Heap" where
  "run_ops_hpq h [] = h"
| "run_ops_hpq h (x # ops) =
     run_ops_hpq (case apply_op_hpq h x of Inl e \<Rightarrow> h | Inr h' \<Rightarrow> h') ops"

text \<open>
  \<open>moves_down cfg x\<close>: the operation is an \<open>insert\<close>, a \<open>delete\<close>, or an \<open>update\<close> whose
  new value may stand below the old one in the configured order (not larger in a
  max-heap, not smaller in a min-heap).
\<close>

fun moves_down :: "bool \<Rightarrow> ('a::linorder) heap_op \<Rightarrow> bool" where
  "moves_down cfg (Update old new) = heap_order cfg old new"
| "moves_down cfg _ = True"

subsection \<open>Enqueue all, dequeue n times\<close>

definition enqueue_all :: "('a::linorder) PriorityQueue \<Rightarrow> 'a list \<Rightarrow> 'a PriorityQueue" where
  "enqueue_all q xs = foldl enqueue q xs"

fun dequeue_n :: "nat \<Rightarrow> ('a::linorder) PriorityQueue \<Rightarrow> error + ('a list \<times> 'a PriorityQueue)" where
  "dequeue_n 0 q = Inr ([], q)"
| "dequeue_n (Suc n) q =
     (case dequeue q of
        Inl e \<Rightarrow> Inl e
      | Inr (x, q') \<Rightarrow>
         (case dequeue_n n q' of
            Inl e \<Rightarrow> Inl e
          | Inr (xs, q'') \<Rightarrow> Inr (x # xs, q'')))"

definition enqueue_all_hpq :: "('a::linorder) PriorityQueue \<Rightarrow> 'a list \<Rightarrow> 'a PriorityQueue" where
  "enqueue_all_hpq q xs = foldl enqueue_hpq q xs"

fun dequeue_n_hpq :: "nat \<Rightarrow> ('a::linorder) PriorityQueue \<Rightarrow> error + ('a list \<times> 'a PriorityQueue)" where
  "dequeue_n_hpq 0 q = Inr ([], q)"
| "dequeue_n_hpq (Suc n) q =
     (case dequeue_hpq q of
        Inl e \<Rightarrow> Inl e
      | Inr (x, q') \<Rightarrow>
         (case dequeue_n_hpq n q' of
            Inl e \<Rightarrow> Inl e
          | Inr (xs, q'') \<Rightarrow> Inr (x # xs, q'')))"

subsection \<open>Neighbours read from the weighted matrix\<close>

text \<open>
  graph\_heap\_pq.py builds the matrix but has no method that reads neighbours from it.
  The reading of row \<open>encoder[v]\<close> is the loop of \<open>_getNeighborsMatAdj\<close> with the test
  that a cell is not zero, zero being the value of a cell no relation has written.
\<close>

definition matrix_neighbors :: "'v Graph \<Rightarrow> 'v \<Rightarrow> error + 'v list" where
  "matrix_neighbors g v =
     (case encoder g v of
        None \<Rightarrow> Inl KeyError
      | Some k \<Rightarrow>
         if k < length (adjMat g)
         then scanRow (\<lambda>cell. cell \<noteq> 0) (decoder g) 0 (adjMat g ! k)
         else Inl IndexError)"

subsection \<open>Walks of a set and reverse relations in the matrix\<close>

text \<open>
  \<open>walks xs\<close> lists every order in which the elements of \<open>xs\<close> can be walked.
  \<open>reverse_in_matrix g (u, v, w)\<close>: the cell of the matrix for the reverse pair
  \<open>(v, u)\<close> holds the weight \<open>w\<close>.
\<close>

fun interleave :: "'a \<Rightarrow> 'a list \<Rightarrow> 'a list list" where
  "interleave x [] = [[x]]"
| "interleave x (y # ys) = (x # y # ys) # map ((#) y) (interleave x ys)"

fun walks :: "'a list \<Rightarrow> 'a list list" where
  "walks [] = [[]]"
| "walks (x # xs) = concat (map (interleave x) (walks xs))"

definition reverse_in_matrix :: "'v Graph \<Rightarrow> 'v relation \<Rightarrow> bool" where
  "reverse_in_matrix g r =
     (case r of (u, v, w) \<Rightarrow>
        (case encoder g v of
           None \<Rightarrow> False
         | Some i \<Rightarrow>
            (case encoder g u of
               None \<Rightarrow> False
             | Some j \<Rightarrow>
                i < length (adjMat g) \<and> j < length (adjMat g ! i) \<and> adjMat g ! i ! j = w)))"

subsection \<open>Parent chains\<close>

text \<open>
  \<open>is_root\<close>: the vertex has an entry whose parent is \<open>None\<close>. \<open>parent_links\<close>: in the
  list, the parent of each element after the first is the element before it.
\<close>

definition is_root :: "'v table \<Rightarrow> 'v \<Rightarrow> bool" where
  "is_root vp x = (case vp x of None \<Rightarrow> False | Some p \<Rightarrow> parent p = None)"

fun parent_links :: "'v table \<Rightarrow> 'v list \<Rightarrow> bool" where
  "parent_links vp (x # y # ys) =
     ((case vp y of None \<Rightarrow> False | Some p \<Rightarrow> parent p = Some x) \<and> parent_links vp (y # ys))"
| "parent_links vp _ = True"

section \<open>Sifting down and building\<close>

text \<open>
  Index arithmetic: the children of \<open>i\<close> are exactly the positive indices whose parent
  is \<open>i\<close>.
\<close>


lemma parent_iff: "0 < j \<and> heap_parent j = i \<longleftrightarrow> j = left i \<or> j = right i"
  unfolding heap_parent_def left_def right_def by presburger

lemma max_heapify_unfold: 
  fixes d :: "('a::linorder) list"
  assumes "l = left i" "r = right i" "c1 = (if l < length d \<and> d ! i < d ! l then l else i)" 
     "c = (if r < length d \<and> d ! c1 < d ! r then r else c1)"
   shows "max_heapify d i = (if c \<noteq> i then max_heapify (d[c := d ! i, i := d ! c]) c else d)"
  apply (subst max_heapify.simps) 
  apply (simp only: Let_def assms)
  done

lemma max_pick_cases [consumes 4, case_names stop swap]:
  fixes d :: "('a::linorder) list"
  assumes "l = left i" "r = right i" "c1 = (if l < length d \<and> d ! i < d ! l then l else i)" 
     "c = (if r < length d \<and> d ! c1 < d ! r then r else c1)"
  obtains (stop) "c = i" "l < length d \<longrightarrow> d ! l \<le> d ! i" "r < length d \<longrightarrow> d ! r \<le> d ! i"
   | (swap) "c = l \<or> c = r" "c \<noteq> i" "i < length d" "c < length d" "d ! i < d ! c"
            "l < length d \<longrightarrow> d ! l \<le> d ! c" "r < length d \<longrightarrow> d ! r \<le> d ! c"
proof -
  have lr: "l = 2 * i + 1" "r = 2 * i + 2" using assms(1,2) by (simp_all add: left_def right_def)
  show ?thesis
  proof (cases "l < length d \<and> d ! i < d ! l")
    case True
    then have c1: "c1 = l" using assms(3) by simp
    show ?thesis
    proof (cases "r < length d \<and> d ! l < d ! r")
      case T2: True
      then have "c = r" using assms(4) c1 by simp
      then show ?thesis using True T2 lr by (intro swap) auto
    next
      case False
      then have "c = l" using assms(4) c1 by auto
      then show ?thesis using False True lr by (intro swap) auto
    qed
  next
    case False
    then have c1: "c1 = i" using assms(3) by auto
    show ?thesis
    proof (cases "r < length d \<and> d ! i < d ! r")
      case True
      then have "c = r" using assms(4) c1 by simp
      then show ?thesis using True False lr by (intro swap) auto
    next
      case F2: False
      then have "c = i" using assms(4) c1 by auto
      then show ?thesis using False F2 lr by (intro stop) auto
    qed
  qed
qed

lemma max_heapify_induct2 [case_names step]:
  fixes d :: "('a::linorder) list"
  assumes "\<And>d i l r c1 c. l = left i \<Longrightarrow> r = right i \<Longrightarrow>
       c1 = (if l < length d \<and> d ! i < d ! l then l else i) \<Longrightarrow>
       c = (if r < length d \<and> d ! c1 < d ! r then r else c1) \<Longrightarrow>
       (c \<noteq> i \<Longrightarrow> P (d[c := d ! i, i := d ! c]) c) \<Longrightarrow> P d i"
  shows "P d i"
proof (induction d i rule: max_heapify.induct)
  case (1 d i)
  show ?case
    by (rule assms[OF refl refl refl refl]) (rule 1[OF refl refl refl refl refl])
qed

lemma length_max_heapify [simp]: "length (max_heapify d i) = length d"
  by (induction d i rule: max_heapify.induct) (subst max_heapify.simps, simp add: Let_def)

lemma mset_max_heapify [simp]: "mset (max_heapify d i) = mset d"
proof (induction d i rule: max_heapify_induct2)
  case (step d i l r c1 c)
  note unf = max_heapify_unfold[OF step(1-4)]
  from step(1-4) show ?case
  proof (cases rule: max_pick_cases)
    case stop then show ?thesis using unf by simp
  next
    case swap
    then show ?thesis using unf step(5) mset_swap[of i d c] by simp
  qed
qed

lemma max_heapify_inv:
  assumes "\<forall>j. 0 < j \<and> j < length d \<and> k \<le> heap_parent j \<and> heap_parent j \<noteq> i \<longrightarrow> d ! j \<le> d ! heap_parent j"
    and "0 < i \<and> k \<le> heap_parent i \<longrightarrow> (\<forall>j. 0 < j \<and> j < length d \<and> heap_parent j = i \<longrightarrow> d ! j \<le> d ! heap_parent i)"
    and "k \<le> i"
  shows "inv_from True (max_heapify d i) k"
  using assms
proof (induction d i rule: max_heapify_induct2)
  case (step d i l r c1 c)
  note unf = max_heapify_unfold[OF step(1-4)]
  have lr: "l = 2 * i + 1" "r = 2 * i + 2" using step(1,2) by (simp_all add: left_def right_def)
  have kids: "\<And>j. 0 < j \<and> heap_parent j = i \<longleftrightarrow> j = l \<or> j = r"
    using parent_iff step(1,2) by blast
  from step(1-4) show ?case
  proof (cases rule: max_pick_cases)
    case stop
    note ci = stop(1) and cl = stop(2) and cr = stop(3)
    have "d ! j \<le> d ! heap_parent j" if "0 < j" "j < length d" "k \<le> heap_parent j" for j
    proof (cases "heap_parent j = i")
      case False
      then show ?thesis using step(6) that by blast
    next
      case pj: True
      then have "j = l \<or> j = r" using kids that by blast
      then show ?thesis using that pj cl cr by auto
    qed
    then show ?thesis using ci unf by (simp add: inv_from_def heap_order_def)
  next
    case swap
    note cc = swap(1) and cne = swap(2) and ilen = swap(3) and clen = swap(4)
      and ci = swap(5) and cl = swap(6) and cr = swap(7)
    have pc: "heap_parent c = i" "0 < c" using cc kids by blast+
    define d' where "d' = d[c := d ! i, i := d ! c]"
    have len': "length d' = length d" by (simp add: d'_def)
    have nth': "\<And>j. j < length d \<Longrightarrow> d' ! j = (if j = i then d ! c else if j = c then d ! i else d ! j)"
      by (simp add: d'_def nth_list_update)
    have A: "\<forall>j. 0 < j \<and> j < length d' \<and> k \<le> heap_parent j \<and> heap_parent j \<noteq> c \<longrightarrow> d' ! j \<le> d' ! heap_parent j"
    proof (intro allI impI, elim conjE)
      fix j assume j: "0 < j" "j < length d'" "k \<le> heap_parent j" "heap_parent j \<noteq> c"
      have pjlen: "heap_parent j < length d" using j len' by (simp add: heap_parent_def)
      show "d' ! j \<le> d' ! heap_parent j"
      proof (cases "heap_parent j = i")
        case True
        then have "j = l \<or> j = r" using kids j by blast
        moreover have "j \<noteq> i" using True j by (auto simp: heap_parent_def)
        ultimately show ?thesis using True j len' ilen ci cl cr cc cne
          by (auto simp: nth')
      next
        case pj: False
        have jc: "j \<noteq> c" using pj pc by auto
        show ?thesis
        proof (cases "j = i")
          case True
          then have "0 < i" "k \<le> heap_parent i" using j by auto
          then have "d ! c \<le> d ! heap_parent i" using step(7) pc clen by blast
          moreover have "heap_parent i \<noteq> i" "heap_parent i \<noteq> c" using \<open>0 < i\<close> cc lr
            by (auto simp: heap_parent_def)
          ultimately show ?thesis using True nth' pjlen ilen by simp
        next
          case False
          then have "d ! j \<le> d ! heap_parent j" using step(6) j pj len' by auto
          then show ?thesis using False jc pj j nth' pjlen len' by simp
        qed
      qed
    qed
    have B: "0 < c \<and> k \<le> heap_parent c \<longrightarrow> (\<forall>j. 0 < j \<and> j < length d' \<and> heap_parent j = c \<longrightarrow> d' ! j \<le> d' ! heap_parent c)"
    proof (intro allI impI, elim conjE)
      fix j assume j: "0 < j" "j < length d'" "heap_parent j = c" "0 < c" "k \<le> heap_parent c"
      have "j \<noteq> i" "j \<noteq> c" using j cc lr by (auto simp: heap_parent_def)
      moreover have "k \<le> heap_parent j" using j step(8) cc lr by auto
      moreover have "heap_parent j \<noteq> i" using j cne by auto
      ultimately have "d ! j \<le> d ! c" using step(6) j len' by auto
      then show "d' ! j \<le> d' ! heap_parent c"
        using pc nth' j len' ilen \<open>j \<noteq> i\<close> \<open>j \<noteq> c\<close> by simp
    qed
    have C: "k \<le> c" using step(8) cc lr by auto
    have "inv_from True (max_heapify d' c) k"
      using step(5)[OF cne] A B C unfolding d'_def by blast
    then show ?thesis using unf cne by (simp add: d'_def)
  qed
qed

lemma min_heapify_unfold: 
  fixes d :: "('a::linorder) list"
  assumes "l = left i" "r = right i" "c1 = (if l < length d \<and> d ! l < d ! i then l else i)" 
     "c = (if r < length d \<and> d ! r < d ! c1 then r else c1)"
   shows "min_heapify d i = (if c \<noteq> i then min_heapify (d[c := d ! i, i := d ! c]) c else d)"
  apply (subst min_heapify.simps) 
  apply (simp only: Let_def assms)
  done

lemma min_pick_cases [consumes 4, case_names stop swap]:
  fixes d :: "('a::linorder) list"
  assumes "l = left i" "r = right i" "c1 = (if l < length d \<and> d ! l < d ! i then l else i)" 
     "c = (if r < length d \<and> d ! r < d ! c1 then r else c1)"
  obtains (stop) "c = i" "l < length d \<longrightarrow> d ! i \<le> d ! l" "r < length d \<longrightarrow> d ! i \<le> d ! r"
   | (swap) "c = l \<or> c = r" "c \<noteq> i" "i < length d" "c < length d" "d ! c < d ! i"
            "l < length d \<longrightarrow> d ! c \<le> d ! l" "r < length d \<longrightarrow> d ! c \<le> d ! r"
proof -
  have lr: "l = 2 * i + 1" "r = 2 * i + 2" using assms(1,2) by (simp_all add: left_def right_def)
  show ?thesis
  proof (cases "l < length d \<and> d ! l < d ! i")
    case True
    then have c1: "c1 = l" using assms(3) by simp
    show ?thesis
    proof (cases "r < length d \<and> d ! r < d ! l")
      case T2: True
      then have "c = r" using assms(4) c1 by simp
      then show ?thesis using True T2 lr by (intro swap) auto
    next
      case False
      then have "c = l" using assms(4) c1 by auto
      then show ?thesis using False True lr by (intro swap) auto
    qed
  next
    case False
    then have c1: "c1 = i" using assms(3) by auto
    show ?thesis
    proof (cases "r < length d \<and> d ! r < d ! i")
      case True
      then have "c = r" using assms(4) c1 by simp
      then show ?thesis using True False lr by (intro swap) auto
    next
      case F2: False
      then have "c = i" using assms(4) c1 by auto
      then show ?thesis using False F2 lr by (intro stop) auto
    qed
  qed
qed

lemma min_heapify_induct2 [case_names step]:
  fixes d :: "('a::linorder) list"
  assumes "\<And>d i l r c1 c. l = left i \<Longrightarrow> r = right i \<Longrightarrow>
       c1 = (if l < length d \<and> d ! l < d ! i then l else i) \<Longrightarrow>
       c = (if r < length d \<and> d ! r < d ! c1 then r else c1) \<Longrightarrow>
       (c \<noteq> i \<Longrightarrow> P (d[c := d ! i, i := d ! c]) c) \<Longrightarrow> P d i"
  shows "P d i"
proof (induction d i rule: min_heapify.induct)
  case (1 d i)
  show ?case
    by (rule assms[OF refl refl refl refl]) (rule 1[OF refl refl refl refl refl])
qed


lemma length_min_heapify [simp]: "length (min_heapify d i) = length d"
  by (induction d i rule: min_heapify.induct) (subst min_heapify.simps, simp add: Let_def)

lemma mset_min_heapify [simp]: "mset (min_heapify d i) = mset d"
proof (induction d i rule: min_heapify_induct2)
  case (step d i l r c1 c)
  note unf = min_heapify_unfold[OF step(1-4)]
  from step(1-4) show ?case
  proof (cases rule: min_pick_cases)
    case stop then show ?thesis using unf by simp
  next
    case swap
    then show ?thesis using unf step(5) mset_swap[of i d c] by simp
  qed
qed

lemma min_heapify_inv:
  assumes "\<forall>j. 0 < j \<and> j < length d \<and> k \<le> heap_parent j \<and> heap_parent j \<noteq> i \<longrightarrow> d ! heap_parent j \<le> d ! j"
    and "0 < i \<and> k \<le> heap_parent i \<longrightarrow> (\<forall>j. 0 < j \<and> j < length d \<and> heap_parent j = i \<longrightarrow> d ! heap_parent i \<le> d ! j)"
    and "k \<le> i"
  shows "inv_from False (min_heapify d i) k"
  using assms
proof (induction d i rule: min_heapify_induct2)
  case (step d i l r c1 c)
  note unf = min_heapify_unfold[OF step(1-4)]
  have lr: "l = 2 * i + 1" "r = 2 * i + 2" using step(1,2) by (simp_all add: left_def right_def)
  have kids: "\<And>j. 0 < j \<and> heap_parent j = i \<longleftrightarrow> j = l \<or> j = r"
    using parent_iff step(1,2) by blast
  from step(1-4) show ?case
  proof (cases rule: min_pick_cases)
    case stop
    note ci = stop(1) and cl = stop(2) and cr = stop(3)
    have "d ! heap_parent j \<le> d ! j" if "0 < j" "j < length d" "k \<le> heap_parent j" for j
    proof (cases "heap_parent j = i")
      case False
      then show ?thesis using step(6) that by blast
    next
      case pj: True
      then have "j = l \<or> j = r" using kids that by blast
      then show ?thesis using that pj cl cr by auto
    qed
    then show ?thesis using ci unf by (simp add: inv_from_def heap_order_def)
  next
    case swap
    note cc = swap(1) and cne = swap(2) and ilen = swap(3) and clen = swap(4)
      and ci = swap(5) and cl = swap(6) and cr = swap(7)
    have pc: "heap_parent c = i" "0 < c" using cc kids by blast+
    define d' where "d' = d[c := d ! i, i := d ! c]"
    have len': "length d' = length d" by (simp add: d'_def)
    have nth': "\<And>j. j < length d \<Longrightarrow> d' ! j = (if j = i then d ! c else if j = c then d ! i else d ! j)"
      by (simp add: d'_def nth_list_update)
    have A: "\<forall>j. 0 < j \<and> j < length d' \<and> k \<le> heap_parent j \<and> heap_parent j \<noteq> c \<longrightarrow> d' ! heap_parent j \<le> d' ! j"
    proof (intro allI impI, elim conjE)
      fix j assume j: "0 < j" "j < length d'" "k \<le> heap_parent j" "heap_parent j \<noteq> c"
      have pjlen: "heap_parent j < length d" using j len' by (simp add: heap_parent_def)
      show "d' ! heap_parent j \<le> d' ! j"
      proof (cases "heap_parent j = i")
        case True
        then have "j = l \<or> j = r" using kids j by blast
        moreover have "j \<noteq> i" using True j by (auto simp: heap_parent_def)
        ultimately show ?thesis using True j len' ilen ci cl cr cc cne
          by (auto simp: nth')
      next
        case pj: False
        have jc: "j \<noteq> c" using pj pc by auto
        show ?thesis
        proof (cases "j = i")
          case True
          then have "0 < i" "k \<le> heap_parent i" using j by auto
          then have "d ! heap_parent i \<le> d ! c" using step(7) pc clen by blast
          moreover have "heap_parent i \<noteq> i" "heap_parent i \<noteq> c" using \<open>0 < i\<close> cc lr
            by (auto simp: heap_parent_def)
          ultimately show ?thesis using True nth' pjlen ilen by simp
        next
          case False
          then have "d ! heap_parent j \<le> d ! j" using step(6) j pj len' by auto
          then show ?thesis using False jc pj j nth' pjlen len' by simp
        qed
      qed
    qed
    have B: "0 < c \<and> k \<le> heap_parent c \<longrightarrow> (\<forall>j. 0 < j \<and> j < length d' \<and> heap_parent j = c \<longrightarrow> d' ! heap_parent c \<le> d' ! j)"
    proof (intro allI impI, elim conjE)
      fix j assume j: "0 < j" "j < length d'" "heap_parent j = c" "0 < c" "k \<le> heap_parent c"
      have "j \<noteq> i" "j \<noteq> c" using j cc lr by (auto simp: heap_parent_def)
      moreover have "k \<le> heap_parent j" using j step(8) cc lr by auto
      moreover have "heap_parent j \<noteq> i" using j cne by auto
      ultimately have "d ! c \<le> d ! j" using step(6) j len' by auto
      then show "d' ! heap_parent c \<le> d' ! j"
        using pc nth' j len' ilen \<open>j \<noteq> i\<close> \<open>j \<noteq> c\<close> by simp
    qed
    have C: "k \<le> c" using step(8) cc lr by auto
    have "inv_from False (min_heapify d' c) k"
      using step(5)[OF cne] A B C unfolding d'_def by blast
    then show ?thesis using unf cne by (simp add: d'_def)
  qed
qed


lemma heap_inv_iff: "heap_inv cfg d \<longleftrightarrow> inv_from cfg d 0"
  by (auto simp: heap_inv_def inv_from_def)

lemma config_heapify [simp]: "config (heapify h i) = config h"
  by (simp add: heapify_def)

lemma length_heapify [simp]: "length (data (heapify h i)) = length (data h)"
  by (simp add: heapify_def)

lemma mset_heapify [simp]: "mset (data (heapify h i)) = mset (data h)"
  by (simp add: heapify_def)

lemma heapify_inv_from:
  assumes "inv_from (config h) (data h) (Suc m)"
  shows "inv_from (config h) (data (heapify h m)) m"
proof -
  have pm: "0 < m \<Longrightarrow> \<not> m \<le> heap_parent m" by (simp add: heap_parent_def)
  show ?thesis
  proof (cases "config h")
    case True
    have "inv_from True (max_heapify (data h) m) m"
    proof (rule max_heapify_inv)
      show "\<forall>j. 0 < j \<and> j < length (data h) \<and> m \<le> heap_parent j \<and> heap_parent j \<noteq> m \<longrightarrow> data h ! j \<le> data h ! heap_parent j"
        using assms True by (auto simp: inv_from_def heap_order_def)
      show "0 < m \<and> m \<le> heap_parent m \<longrightarrow> (\<forall>j. 0 < j \<and> j < length (data h) \<and> heap_parent j = m \<longrightarrow> data h ! j \<le> data h ! heap_parent m)"
        using pm by blast
    qed simp
    then show ?thesis using True by (simp add: heapify_def)
  next
    case False
    have "inv_from False (min_heapify (data h) m) m"
    proof (rule min_heapify_inv)
      show "\<forall>j. 0 < j \<and> j < length (data h) \<and> m \<le> heap_parent j \<and> heap_parent j \<noteq> m \<longrightarrow> data h ! heap_parent j \<le> data h ! j"
        using assms False by (auto simp: inv_from_def heap_order_def)
      show "0 < m \<and> m \<le> heap_parent m \<longrightarrow> (\<forall>j. 0 < j \<and> j < length (data h) \<and> heap_parent j = m \<longrightarrow> data h ! heap_parent m \<le> data h ! j)"
        using pm by blast
    qed simp
    then show ?thesis using False by (simp add: heapify_def)
  qed
qed

lemma foldl_heapify_props [simp]:
  "config (foldl heapify h is) = config h"
  "length (data (foldl heapify h is)) = length (data h)"
  "mset (data (foldl heapify h is)) = mset (data h)"
  by (induction "is" arbitrary: h) simp_all

lemma foldl_heapify_inv:
  "inv_from (config h) (data h) (Suc m) \<Longrightarrow>
   inv_from (config h) (data (foldl heapify h (rev [0 ..< Suc m]))) 0"
proof (induction m arbitrary: h)
  case 0
  then show ?case using heapify_inv_from[of h 0] by simp
next
  case (Suc m)
  have "inv_from (config (heapify h (Suc m))) (data (heapify h (Suc m))) (Suc m)"
    using heapify_inv_from[OF Suc.prems] by simp
  from Suc.IH[OF this] show ?case by simp
qed

lemma inv_from_beyond: "length d \<le> 2 * k \<Longrightarrow> inv_from cfg d k"
  by (auto simp: inv_from_def heap_parent_def)

lemma build_props [simp]:
  "config (build h new) = config h"
  "mset (data (build h new)) = mset (if new \<noteq> [] then new else data h)"
  "length (data (build h new)) = length (if new \<noteq> [] then new else data h)"
  by (simp_all add: build_def Let_def)

lemma build_heap_inv: "heap_inv (config h) (data (build h new))"
proof -
  define h1 where "h1 = (if new \<noteq> [] then h\<lparr>data := new\<rparr> else h)"
  have c: "config h1 = config h" by (simp add: h1_def)
  have "inv_from (config h1) (data h1) (Suc (length (data h1) div 2))"
    by (rule inv_from_beyond) simp
  from foldl_heapify_inv[OF this] show ?thesis
    by (simp add: build_def Let_def h1_def[symmetric] heap_inv_iff c)
qed

lemma heap_root_extreme:
  assumes "heap_inv cfg d" "i < length d"
  shows "heap_order cfg (d ! 0) (d ! i)"
  using assms(2)
proof (induction i rule: less_induct)
  case (less i)
  show ?case
  proof (cases "i = 0")
    case True
    then show ?thesis by (simp add: heap_order_def)
  next
    case False
    then have lt: "heap_parent i < i" by (simp add: heap_parent_def)
    have "heap_order cfg (d ! heap_parent i) (d ! i)"
      using assms(1) False less.prems by (simp add: heap_inv_def)
    moreover have "heap_order cfg (d ! 0) (d ! heap_parent i)"
      using less.IH[OF lt] lt less.prems by simp
    ultimately show ?thesis by (auto simp: heap_order_def)
  qed
qed

subsection \<open>Operations keep the heap order\<close>

lemma insert_heap_props [simp]:
  "config (insert_heap h x) = config h"
  "mset (data (insert_heap h x)) = add_mset x (mset (data h))"
  "length (data (insert_heap h x)) = Suc (length (data h))"
  by (simp_all add: insert_heap_def)

lemma insert_heap_inv: "heap_inv (config h) (data (insert_heap h x))"
  using build_heap_inv[of "h\<lparr>data := data h @ [x]\<rparr>" "[]"] by (simp add: insert_heap_def)

lemma delete_props:
  assumes "delete h x = Inr h'"
  shows "config h' = config h" "mset (data h') = mset (data h) - {#x#}"
    "Suc (length (data h')) = length (data h)" "heap_inv (config h) (data h')"
proof -
  from assms have ne: "data h \<noteq> []" and mem: "x \<in> set (data h)"
    and h': "h' = build (h\<lparr>data := remove1 x (data h)\<rparr>) []"
    by (auto simp: delete_def split: if_splits)
  show "config h' = config h" by (simp add: h')
  show "mset (data h') = mset (data h) - {#x#}" by (simp add: h')
  show "Suc (length (data h')) = length (data h)"
    using mem ne by (simp add: h' length_remove1)
  show "heap_inv (config h) (data h')"
    using build_heap_inv[of "h\<lparr>data := remove1 x (data h)\<rparr>" "[]"] by (simp add: h')
qed

lemma index_of_Some: "index_of x xs = Some i \<Longrightarrow> i < length xs \<and> xs ! i = x"
  by (induction xs arbitrary: i) (auto split: if_splits)

text \<open>
  The in-place \<open>update\<close> sifts down only. That restores the order when the new value may
  stand below the old one.
\<close>

lemma update_inv:
  assumes inv: "heap_inv (config h) (data h)" and ord: "heap_order (config h) old new"
  shows "heap_inv (config h) (data (update h old new))"
proof (cases "index_of old (data h)")
  case None
  then show ?thesis using inv by (simp add: update_def)
next
  case (Some i)
  define d where "d = data h"
  define d' where "d' = d[i := new]"
  have i: "i < length d" "d ! i = old" using index_of_Some[OF Some] by (simp_all add: d_def)
  have len: "length d' = length d" by (simp add: d'_def)
  have nth': "\<And>j. j < length d \<Longrightarrow> d' ! j = (if j = i then new else d ! j)"
    by (simp add: d'_def nth_list_update)
  have edge: "heap_order (config h) (d ! heap_parent j) (d ! j)" if "0 < j" "j < length d" for j
    using inv that by (simp add: heap_inv_def d_def)
  have plt: "heap_parent j < j" if "0 < j" for j using that by (simp add: heap_parent_def)
  have upd: "update h old new = heapify (h\<lparr>data := d'\<rparr>) i"
    by (simp add: update_def Some d'_def d_def)
  show ?thesis
  proof (cases "config h")
    case True
    have "inv_from True (max_heapify d' i) 0"
    proof (rule max_heapify_inv)
      show "\<forall>j. 0 < j \<and> j < length d' \<and> 0 \<le> heap_parent j \<and> heap_parent j \<noteq> i \<longrightarrow> d' ! j \<le> d' ! heap_parent j"
      proof (intro allI impI, elim conjE)
        fix j assume j: "0 < j" "j < length d'" "heap_parent j \<noteq> i"
        have "d ! j \<le> d ! heap_parent j" using edge[of j] j len True by (simp add: heap_order_def)
        moreover have "new \<le> old" using ord True by (simp add: heap_order_def)
        ultimately show "d' ! j \<le> d' ! heap_parent j"
          using j len plt[of j] i nth' by (cases "j = i") auto
      qed
      show "0 < i \<and> 0 \<le> heap_parent i \<longrightarrow> (\<forall>j. 0 < j \<and> j < length d' \<and> heap_parent j = i \<longrightarrow> d' ! j \<le> d' ! heap_parent i)"
      proof (intro allI impI, elim conjE)
        fix j assume j: "0 < i" "0 < j" "j < length d'" "heap_parent j = i"
        have "d ! j \<le> d ! i" using edge[of j] j len True by (simp add: heap_order_def)
        moreover have "d ! i \<le> d ! heap_parent i" using edge[of i] j i True by (simp add: heap_order_def)
        moreover have "j \<noteq> i" "heap_parent i \<noteq> i" using plt[of j] plt[of i] j by auto
        ultimately show "d' ! j \<le> d' ! heap_parent i"
          using j len i nth' plt[of i] by auto
      qed
    qed simp
    then show ?thesis using True upd by (simp add: heapify_def heap_inv_iff)
  next
    case False
    have "inv_from False (min_heapify d' i) 0"
    proof (rule min_heapify_inv)
      show "\<forall>j. 0 < j \<and> j < length d' \<and> 0 \<le> heap_parent j \<and> heap_parent j \<noteq> i \<longrightarrow> d' ! heap_parent j \<le> d' ! j"
      proof (intro allI impI, elim conjE)
        fix j assume j: "0 < j" "j < length d'" "heap_parent j \<noteq> i"
        have "d ! heap_parent j \<le> d ! j" using edge[of j] j len False by (simp add: heap_order_def)
        moreover have "old \<le> new" using ord False by (simp add: heap_order_def)
        ultimately show "d' ! heap_parent j \<le> d' ! j"
          using j len plt[of j] i nth' by (cases "j = i") auto
      qed
      show "0 < i \<and> 0 \<le> heap_parent i \<longrightarrow> (\<forall>j. 0 < j \<and> j < length d' \<and> heap_parent j = i \<longrightarrow> d' ! heap_parent i \<le> d' ! j)"
      proof (intro allI impI, elim conjE)
        fix j assume j: "0 < i" "0 < j" "j < length d'" "heap_parent j = i"
        have "d ! i \<le> d ! j" using edge[of j] j len False by (simp add: heap_order_def)
        moreover have "d ! heap_parent i \<le> d ! i" using edge[of i] j i False by (simp add: heap_order_def)
        moreover have "j \<noteq> i" "heap_parent i \<noteq> i" using plt[of j] plt[of i] j by auto
        ultimately show "d' ! heap_parent i \<le> d' ! j"
          using j len i nth' plt[of i] by auto
      qed
    qed simp
    then show ?thesis using False upd by (simp add: heapify_def heap_inv_iff)
  qed
qed

lemma config_update [simp]: "config (update h old new) = config h"
  by (simp add: update_def split: option.splits)

lemma apply_op_inv:
  assumes "apply_op h x = Inr h'" "moves_down (config h) x" "heap_inv (config h) (data h)"
  shows "config h' = config h \<and> heap_inv (config h) (data h')"
proof (cases x)
  case (Insert y)
  then show ?thesis using assms insert_heap_inv[of h y] by auto
next
  case (Delete y)
  then show ?thesis using assms delete_props(1,4)[of h y h'] by auto
next
  case (Update a b)
  then show ?thesis using assms update_inv[of h a b] by auto
qed

lemma run_ops_inv:
  "heap_inv (config h) (data h) \<Longrightarrow> list_all (moves_down (config h)) ops \<Longrightarrow>
   config (run_ops h ops) = config h \<and> heap_inv (config h) (data (run_ops h ops))"
proof (induction ops arbitrary: h)
  case Nil
  then show ?case by simp
next
  case (Cons x ops)
  show ?case
  proof (cases "apply_op h x")
    case (Inl e)
    then show ?thesis using Cons by simp
  next
    case (Inr h')
    then have "config h' = config h \<and> heap_inv (config h) (data h')"
      using apply_op_inv Cons.prems by auto
    then show ?thesis using Cons.IH[of h'] Cons.prems Inr by simp
  qed
qed

lemma Heap_init_props [simp]:
  "config (Heap_init xs cfg) = cfg"
  "mset (data (Heap_init xs cfg)) = mset xs"
  by (simp_all add: Heap_init_def)

lemma Heap_init_inv: "heap_inv cfg (data (Heap_init xs cfg))"
  using build_heap_inv[of "\<lparr>data = [], config = cfg\<rparr>" xs] by (simp add: Heap_init_def)

subsection \<open>The max-heap of heap\_priority\_queue.py is the max-heap of graph\_heap\_pq.py\<close>

lemma heapify_hpq_max: "config h \<Longrightarrow> heapify_hpq h i = heapify h i"
  by (simp add: heapify_hpq_def heapify_def)

lemma foldl_heapify_hpq_max: "config h \<Longrightarrow> foldl heapify_hpq h is = foldl heapify h is"
  by (induction "is" arbitrary: h) (simp_all add: heapify_hpq_max)

lemma build_hpq_max: "config h \<Longrightarrow> build_hpq h new = build h new"
  unfolding build_hpq_def build_def Let_def
  by (rule foldl_heapify_hpq_max) simp

lemma insert_hpq_max: "config h \<Longrightarrow> insert_hpq h x = insert_heap h x"
  by (simp add: insert_hpq_def insert_heap_def build_hpq_max)

lemma delete_hpq_max: "config h \<Longrightarrow> delete_hpq h x = delete h x"
  by (simp add: delete_hpq_def delete_def build_hpq_max)

lemma Heap_init_hpq_max: "Heap_init_hpq xs True = Heap_init xs True"
  by (simp add: Heap_init_hpq_def Heap_init_def build_hpq_max)

lemma apply_op_hpq_inv:
  assumes "apply_op_hpq h x = Inr h'" "config h"
  shows "config h' \<and> heap_inv True (data h')"
proof (cases x)
  case (Insert y)
  then show ?thesis using assms insert_heap_inv[of h y] by (auto simp: insert_hpq_max)
next
  case (Delete y)
  then show ?thesis using assms delete_props(1,4)[of h y h'] by (auto simp: delete_hpq_max)
next
  case (Update a b)
  with assms obtain h1 where h1: "delete h a = Inr h1" and h': "h' = insert_hpq h1 b"
    by (auto simp: update_hpq_def delete_hpq_max split: sum.splits)
  have c1: "config h1" using delete_props(1)[OF h1] assms(2) by simp
  then show ?thesis using h' insert_heap_inv[of h1 b] by (simp add: insert_hpq_max)
qed

lemma run_ops_hpq_inv:
  "heap_inv True (data h) \<Longrightarrow> config h \<Longrightarrow>
   config (run_ops_hpq h ops) \<and> heap_inv True (data (run_ops_hpq h ops))"
proof (induction ops arbitrary: h)
  case Nil
  then show ?case by simp
next
  case (Cons x ops)
  show ?case
  proof (cases "apply_op_hpq h x")
    case (Inl e)
    then show ?thesis using Cons by simp
  next
    case (Inr h')
    then have "config h' \<and> heap_inv True (data h')"
      using apply_op_hpq_inv Cons.prems by auto
    then show ?thesis using Cons.IH[of h'] Inr by simp
  qed
qed

text \<open>
  C2 (amended). On a heap of graph\_heap\_pq.py, in the max and in the min configuration,
  the heap-order invariant holds after every sequence of \<open>insert\<close>, \<open>delete\<close> and those
  \<open>update\<close> operations whose new value may stand below the old one (not larger in a
  max-heap, not smaller in a min-heap). On a max-heap of heap\_priority\_queue.py it
  holds after every sequence of \<open>insert\<close>, \<open>delete\<close> and \<open>update\<close>. The invariant: every
  non-root index \<open>i\<close> and its parent \<open>(i - 1) // 2\<close> are in the configured order.
\<close>

theorem C2_heap_order_kept:
  "(list_all (moves_down cfg) ops \<longrightarrow> heap_inv cfg (data (run_ops (Heap_init xs cfg) ops)))
   \<and> heap_inv True (data (run_ops_hpq (Heap_init_hpq ys True) ops'))"
proof (intro conjI impI)
  assume "list_all (moves_down cfg) ops"
  then show "heap_inv cfg (data (run_ops (Heap_init xs cfg) ops))"
    using run_ops_inv[of "Heap_init xs cfg" ops] Heap_init_inv[of cfg xs] by simp
next
  show "heap_inv True (data (run_ops_hpq (Heap_init_hpq ys True) ops'))"
    using run_ops_hpq_inv[of "Heap_init ys True" ops'] Heap_init_inv[of True ys]
    by (simp add: Heap_init_hpq_max)
qed

theorem C2_heap_order_kept_witness:
  "list_all (moves_down False) [Insert 5, Delete 3, Update 1 6, Insert (4::int)]
   \<and> data (run_ops (Heap_init [3, 1, 2] False) [Insert 5, Delete 3, Update 1 6, Insert (4::int)])
       = [2, 4, 5, 6]
   \<and> heap_inv False (data (run_ops (Heap_init [3, 1, 2] False)
                                 [Insert 5, Delete 3, Update 1 6, Insert (4::int)]))
   \<and> data (run_ops_hpq (Heap_init_hpq [1, 3, 2] True) [Insert 5, Update 3 0, Delete (7::int)]) = [5, 2, 1, 0]
   \<and> heap_inv True (data (run_ops_hpq (Heap_init_hpq [1, 3, 2] True) [Insert 5, Update 3 0, Delete (7::int)]))"
proof -
  have h: "list_all (moves_down False) [Insert 5, Delete 3, Update 1 6, Insert (4::int)]"
    by (simp add: heap_order_def)
  have e1: "data (run_ops (Heap_init [3, 1, 2] False) [Insert 5, Delete 3, Update 1 6, Insert (4::int)])
       = [2, 4, 5, 6]"
    by code_simp
  have e2: "data (run_ops_hpq (Heap_init_hpq [1, 3, 2] True) [Insert 5, Update 3 0, Delete (7::int)]) = [5, 2, 1, 0]"
    by code_simp
  from C2_heap_order_kept[of False "[Insert 5, Delete 3, Update 1 6, Insert (4::int)]" "[3, 1, 2]"
      "[1, 3, 2]" "[Insert 5, Update 3 0, Delete (7::int)]"] h e1 e2
  show ?thesis by blast
qed

text \<open>
  In heap\_priority\_queue.py \<open>min_heapify\<close> is a placeholder, so a heap in the min
  configuration keeps its elements in the order of insertion: after inserting 2 and then 1
  the child 1 lies below the parent 2.
\<close>

theorem C2_counterexample:
  "\<not> heap_inv False (data (run_ops_hpq (Heap_init_hpq [] False) [Insert 2, Insert (1::int)]))"
  by code_simp

text \<open>
  The in-place \<open>update\<close> of graph\_heap\_pq.py with a new value that belongs above the old
  one: in the min-heap 1, 2, 3 the value 3 is replaced by 0, which stays below its
  parent 1.
\<close>

lemma update_sifts_down_only:
  "data (update (Heap_init [1, 2, 3::int] False) 3 0) = [1, 2, 0]
   \<and> \<not> heap_inv False (data (update (Heap_init [1, 2, 3::int] False) 3 0))"
  by code_simp

section \<open>The Dijkstra loop returns\<close>

lemma length_update [simp]: "length (data (update h old new)) = length (data h)"
  by (simp add: update_def split: option.splits)

lemma relax_length:
  "relax u ns st = Inr st' \<Longrightarrow> length (data (QS st')) = length (data (QS st))"
  by (induction u ns st rule: relax.induct)
     (auto simp: Let_def pq_update_def split: option.splits if_splits)

lemma dequeue_length: "dequeue q = Inr (x, q') \<Longrightarrow> Suc (length (data q')) = length (data q)"
  by (auto simp: dequeue_def dest: delete_props(3) split: if_splits sum.splits)

text \<open>
  Each round of the \<open>while\<close> loop removes one entry from the queue and the relaxations
  replace entries in place, so the length of the queue decreases.
\<close>

termination dijkstra_loop
proof (relation "measure (\<lambda>(g, st). length (data (QS st)))", goal_cases)
  case 1
  show ?case by simp
next
  case (2 g st x2 x y d u x2a)
  from relax_length[OF 2(6)] dequeue_length[of "QS st" "(d, u)" y] 2
  show ?case by simp
qed

declare dijkstra_loop.simps [simp del]

section \<open>Shortest paths\<close>

text \<open>
  C1 (code at a failing input). Vertices 0, 1, 2, 3 and the directed relations
  \<open>(0, 2, 1)\<close>, \<open>(2, 1, 1)\<close>, \<open>(1, 3, 1)\<close>, all of weight 1: the path 0, 2, 1, 3 has
  weight 3. \<open>dijkstraP\<close> from 0 returns distance 0 for vertex 0, 2 for vertex 1, 1 for
  vertex 2, and leaves vertex 3 at infinity. After the entry of vertex 2 is lowered,
  \<open>Heap.update\<close> only sifts down, the entry \<open>(inf, 1)\<close> stays at the root and vertex 1
  is dequeued while its distance is still infinite; its relation to 3 is never relaxed
  again.
\<close>

theorem C1_dijkstraP_misses_shortest_path:
  "(case Graph_init walk [0, 1, 2, 3::nat] [(0, 2, 1), (2, 1, 1), (1, 3, 1)] True True of
      Inl e \<Rightarrow> Inl e
    | Inr g \<Rightarrow>
        map_sum id (\<lambda>vp. map (\<lambda>v. map_option distance (vp v)) (vertexes g)) (dijkstraP g 0))
   = Inr [Some (Fin 0), Some (Fin 2), Some (Fin 1), Some Infty]"
  by code_simp

section \<open>Dequeue order\<close>

lemma heap_eq: "data (h::'a Heap) = d \<Longrightarrow> config h = c \<Longrightarrow> h = \<lparr>data = d, config = c\<rparr>"
  by (cases h) simp

lemma dequeue_Cons:
  assumes "data q = x # d"
  shows "dequeue q = Inr (x, build (q\<lparr>data := d\<rparr>) [])"
  using assms by (simp add: dequeue_def peek_def delete_def)

lemma dequeue_n_sorted:
  "heap_inv (config q) (data q) \<Longrightarrow> length (data q) = n \<Longrightarrow>
   \<exists>ys. dequeue_n n q = Inr (ys, \<lparr>data = [], config = config q\<rparr>) \<and> mset ys = mset (data q)
        \<and> (if config q then sorted (rev ys) else sorted ys)"
proof (induction n arbitrary: q)
  case 0
  then have "q = \<lparr>data = [], config = config q\<rparr>" by (intro heap_eq) simp_all
  then show ?case using 0 by auto
next
  case (Suc n)
  then obtain x d where d: "data q = x # d" by (cases "data q") auto
  define q1 where "q1 = build (q\<lparr>data := d\<rparr>) []"
  have dq: "dequeue q = Inr (x, q1)" using dequeue_Cons[OF d] by (simp add: q1_def)
  have c1: "config q1 = config q" and m1: "mset (data q1) = mset d"
    and l1: "length (data q1) = n"
    using Suc.prems d by (simp_all add: q1_def)
  have i1: "heap_inv (config q1) (data q1)"
    using build_heap_inv[of "q\<lparr>data := d\<rparr>" "[]"] by (simp add: q1_def)
  from Suc.IH[OF i1 l1] obtain ys where
    ys: "dequeue_n n q1 = Inr (ys, \<lparr>data = [], config = config q\<rparr>)" "mset ys = mset d"
      "if config q then sorted (rev ys) else sorted ys"
    using c1 m1 by auto
  have root: "heap_order (config q) x y" if "y \<in> set ys" for y
  proof -
    from that have "y \<in> set (data q)" using ys(2) d by (metis mset_eq_setD list.set_intros(2))
    then obtain i where "i < length (data q)" "data q ! i = y" by (auto simp: in_set_conv_nth)
    then show ?thesis using heap_root_extreme[OF Suc.prems(1), of i] d by simp
  qed
  have "dequeue_n (Suc n) q = Inr (x # ys, \<lparr>data = [], config = config q\<rparr>)"
    using dq ys(1) by simp
  moreover have "mset (x # ys) = mset (data q)" using ys(2) d by simp
  moreover have "if config q then sorted (rev (x # ys)) else sorted (x # ys)"
    using ys(3) root by (auto simp: heap_order_def sorted_append)
  ultimately show ?case by blast
qed

lemma enqueue_all_props:
  "config (enqueue_all q xs) = config q"
  "mset (data (enqueue_all q xs)) = mset (data q) + mset xs"
  "heap_inv (config q) (data q) \<Longrightarrow> heap_inv (config q) (data (enqueue_all q xs))"
proof -
  have "config (enqueue_all q xs) = config q \<and>
        mset (data (enqueue_all q xs)) = mset (data q) + mset xs \<and>
        (heap_inv (config q) (data q) \<longrightarrow> heap_inv (config q) (data (enqueue_all q xs)))"
    unfolding enqueue_all_def
  proof (induction xs arbitrary: q)
    case Nil
    then show ?case by simp
  next
    case (Cons x xs)
    show ?case using Cons[of "enqueue q x"] insert_heap_inv[of q x]
      by (simp add: enqueue_def)
  qed
  then show "config (enqueue_all q xs) = config q"
    "mset (data (enqueue_all q xs)) = mset (data q) + mset xs"
    "heap_inv (config q) (data q) \<Longrightarrow> heap_inv (config q) (data (enqueue_all q xs))"
    by blast+
qed

lemma dequeue_all_sorted:
  assumes "heap_inv (config q) (data q)" "mset (data q) = mset xs"
  shows "dequeue_n (length xs) q
         = Inr (if config q then rev (sort xs) else sort xs, \<lparr>data = [], config = config q\<rparr>)"
proof -
  have len: "length (data q) = length xs" using assms(2) by (metis size_mset)
  from dequeue_n_sorted[OF assms(1) len] obtain ys where
    ys: "dequeue_n (length xs) q = Inr (ys, \<lparr>data = [], config = config q\<rparr>)"
      "mset ys = mset xs" "if config q then sorted (rev ys) else sorted ys"
    using assms(2) by auto
  show ?thesis
  proof (cases "config q")
    case True
    then have "sort xs = rev ys" using ys by (intro properties_for_sort) simp_all
    then have "ys = rev (sort xs)" by simp
    then show ?thesis using ys(1) True by simp
  next
    case False
    then have "sort xs = ys" using ys by (intro properties_for_sort) simp_all
    then show ?thesis using ys(1) False by simp
  qed
qed

subsection \<open>The queue of heap\_priority\_queue.py\<close>

lemma enqueue_hpq_max: "config q \<Longrightarrow> enqueue_hpq q x = enqueue q x"
  by (simp add: enqueue_hpq_def enqueue_def insert_hpq_max)

lemma enqueue_all_hpq_max: "config q \<Longrightarrow> enqueue_all_hpq q xs = enqueue_all q xs"
  unfolding enqueue_all_hpq_def enqueue_all_def
  by (induction xs arbitrary: q) (simp_all add: enqueue_hpq_max enqueue_def)

lemma dequeue_hpq_max: "config q \<Longrightarrow> dequeue_hpq q = dequeue q"
  by (simp add: dequeue_hpq_def dequeue_def delete_hpq_max cong: sum.case_cong)

lemma dequeue_config: "dequeue q = Inr (x, q') \<Longrightarrow> config q' = config q"
  by (auto simp: dequeue_def dest: delete_props(1) split: if_splits sum.splits)

lemma dequeue_n_hpq_max: "config q \<Longrightarrow> dequeue_n_hpq n q = dequeue_n n q"
proof (induction n arbitrary: q)
  case 0
  then show ?case by simp
next
  case (Suc n)
  show ?case
  proof (cases "dequeue q")
    case (Inl e)
    then show ?thesis using Suc.prems by (simp add: dequeue_hpq_max)
  next
    case (Inr r)
    obtain x q' where r: "r = (x, q')" by (cases r)
    have "config q'" using dequeue_config Inr r Suc.prems by fastforce
    then show ?thesis using Suc.IH[of q'] Suc.prems Inr r by (simp add: dequeue_hpq_max)
  qed
qed

text \<open>With the placeholder \<open>min_heapify\<close>, \<open>build\<close> changes nothing in a min-heap.\<close>

lemma foldl_heapify_hpq_min: "\<not> config h \<Longrightarrow> foldl heapify_hpq h is = h"
  by (induction "is") (simp_all add: heapify_hpq_def min_heapify_hpq_def)

lemma build_hpq_min: "\<not> config h \<Longrightarrow> build_hpq h [] = h"
  by (simp add: build_hpq_def foldl_heapify_hpq_min del: upt_Suc)

lemma enqueue_all_hpq_min:
  "\<not> config q \<Longrightarrow> enqueue_all_hpq q xs = q\<lparr>data := data q @ xs\<rparr>"
  unfolding enqueue_all_hpq_def
  by (induction xs arbitrary: q) (simp_all add: enqueue_hpq_def insert_hpq_def build_hpq_min)

lemma dequeue_n_hpq_min:
  "\<not> config q \<Longrightarrow> dequeue_n_hpq (length (data q)) q = Inr (data q, q\<lparr>data := []\<rparr>)"
proof (induction "data q" arbitrary: q)
  case Nil
  then show ?case by simp
next
  case (Cons x d)
  have dq: "dequeue_hpq q = Inr (x, q\<lparr>data := d\<rparr>)"
    using Cons(2)[symmetric] Cons.prems
    by (simp add: dequeue_hpq_def peek_def delete_hpq_def build_hpq_min)
  from Cons(1)[of "q\<lparr>data := d\<rparr>"] Cons.prems
  have "dequeue_n_hpq (length d) (q\<lparr>data := d\<rparr>) = Inr (d, q\<lparr>data := []\<rparr>)" by simp
  then show ?case using dq Cons(2)[symmetric] by simp
qed

lemma PriorityQueue_init_empty: "PriorityQueue_init [] cfg = \<lparr>data = [], config = cfg\<rparr>"
  by (intro heap_eq) (simp_all add: PriorityQueue_init_def Heap_init_def mset_zero_iff[symmetric] del: mset_zero_iff)

lemma enqueue_dequeue_sorted:
  "dequeue_n (length us) (enqueue_all (PriorityQueue_init [] c) us)
     = Inr (if c then rev (sort us) else sort us, \<lparr>data = [], config = c\<rparr>)"
proof -
  define q where "q = enqueue_all (PriorityQueue_init [] c) us"
  have "heap_inv c (data (PriorityQueue_init [] c))"
    by (simp add: PriorityQueue_init_empty heap_inv_def)
  then have "heap_inv (config q) (data q)" "mset (data q) = mset us" "config q = c"
    using enqueue_all_props[of "PriorityQueue_init [] c" us]
    by (simp_all add: q_def PriorityQueue_init_empty)
  from dequeue_all_sorted[OF this(1,2)] this(3) show ?thesis by (simp add: q_def)
qed

text \<open>
  C4 (amended). With the queue of graph\_heap\_pq.py, enqueuing the elements of any list
  \<open>xs\<close> into an empty queue and dequeuing \<open>length xs\<close> times succeeds and yields the
  elements in descending order for the max configuration and in ascending order for
  the min configuration, leaving the queue empty. With the queue of
  heap\_priority\_queue.py the same holds for the max configuration; in the min
  configuration the elements come back in the order in which they were enqueued.
\<close>

theorem C4_dequeue_order:
  "dequeue_n (length xs) (enqueue_all (PriorityQueue_init [] cfg) xs)
     = Inr (if cfg then rev (sort xs) else sort xs, \<lparr>data = [], config = cfg\<rparr>)
   \<and> dequeue_n_hpq (length ys) (enqueue_all_hpq (PriorityQueue_init_hpq [] True) ys)
     = Inr (rev (sort ys), \<lparr>data = [], config = True\<rparr>)
   \<and> dequeue_n_hpq (length zs) (enqueue_all_hpq (PriorityQueue_init_hpq [] False) zs)
     = Inr (zs, \<lparr>data = [], config = False\<rparr>)"
proof (intro conjI)
  show "dequeue_n (length xs) (enqueue_all (PriorityQueue_init [] cfg) xs)
     = Inr (if cfg then rev (sort xs) else sort xs, \<lparr>data = [], config = cfg\<rparr>)"
    by (rule enqueue_dequeue_sorted)
  have e: "PriorityQueue_init_hpq [] c = \<lparr>data = [], config = c\<rparr>" for c
    by (cases c) (simp_all add: PriorityQueue_init_hpq_def Heap_init_hpq_def
        build_hpq_max build_hpq_min PriorityQueue_init_empty[unfolded PriorityQueue_init_def Heap_init_def])
  show "dequeue_n_hpq (length ys) (enqueue_all_hpq (PriorityQueue_init_hpq [] True) ys)
     = Inr (rev (sort ys), \<lparr>data = [], config = True\<rparr>)"
    using enqueue_dequeue_sorted[of ys True] enqueue_all_props(1)[of "\<lparr>data = [], config = True\<rparr>" ys]
    by (simp add: e PriorityQueue_init_empty enqueue_all_hpq_max dequeue_n_hpq_max)
  show "dequeue_n_hpq (length zs) (enqueue_all_hpq (PriorityQueue_init_hpq [] False) zs)
     = Inr (zs, \<lparr>data = [], config = False\<rparr>)"
    using dequeue_n_hpq_min[of "\<lparr>data = zs, config = False\<rparr>"]
    by (simp add: e enqueue_all_hpq_min)
qed

theorem C4_dequeue_order_witness:
  "dequeue_n (length [3, 1, 4, 1::int]) (enqueue_all (PriorityQueue_init [] True) [3, 1, 4, 1::int])
     = Inr ([4, 3, 1, 1], \<lparr>data = [], config = True\<rparr>)
   \<and> dequeue_n (length [3, 1, 4, 1::int]) (enqueue_all (PriorityQueue_init [] False) [3, 1, 4, 1::int])
     = Inr ([1, 1, 3, 4], \<lparr>data = [], config = False\<rparr>)
   \<and> dequeue_n_hpq (length [2, 3, 1::int]) (enqueue_all_hpq (PriorityQueue_init_hpq [] True) [2, 3, 1::int])
     = Inr ([3, 2, 1], \<lparr>data = [], config = True\<rparr>)"
proof -
  have s1: "sort [3, 1, 4, 1::int] = [1, 1, 3, 4]" and s2: "sort [2, 3, 1::int] = [1, 2, 3]"
    by simp_all
  note t = C4_dequeue_order[of "[3, 1, 4, 1::int]" True "[2, 3, 1::int]" "[]::int list"]
  note f = C4_dequeue_order[of "[3, 1, 4, 1::int]" False "[]::int list" "[]::int list"]
  have a: "dequeue_n (length [3, 1, 4, 1::int]) (enqueue_all (PriorityQueue_init [] True) [3, 1, 4, 1::int])
     = Inr ([4, 3, 1, 1], \<lparr>data = [], config = True\<rparr>)"
    using t[THEN conjunct1] by (simp only: s1 if_True rev.simps append.simps)
  have b: "dequeue_n (length [3, 1, 4, 1::int]) (enqueue_all (PriorityQueue_init [] False) [3, 1, 4, 1::int])
     = Inr ([1, 1, 3, 4], \<lparr>data = [], config = False\<rparr>)"
    using f[THEN conjunct1] by (simp only: s1 if_False)
  have c: "dequeue_n_hpq (length [2, 3, 1::int]) (enqueue_all_hpq (PriorityQueue_init_hpq [] True) [2, 3, 1::int])
     = Inr ([3, 2, 1], \<lparr>data = [], config = True\<rparr>)"
    using t[THEN conjunct2, THEN conjunct1] by (simp only: s2 rev.simps append.simps)
  from a b c show ?thesis by blast
qed

text \<open>
  In heap\_priority\_queue.py a queue in the min configuration returns 2 before 1 when
  they were enqueued in this order: the dequeue order is not ascending.
\<close>

theorem C4_counterexample:
  "dequeue_n_hpq 2 (enqueue_all_hpq (PriorityQueue_init_hpq [] False) [2, 1::int])
     = Inr ([2, 1], \<lparr>data = [], config = False\<rparr>) \<and> \<not> sorted [2, 1::int]"
  by code_simp

section \<open>Misuse of the heap\<close>

lemma index_of_None: "index_of x xs = None \<longleftrightarrow> x \<notin> set xs"
  by (induction xs) auto

text \<open>
  C8 (amended). For every heap of graph\_heap\_pq.py: \<open>delete\<close> fails with \<open>EmptyHeap\<close>
  exactly when the heap holds no elements, and with \<open>ElementNotFound\<close> exactly when the
  heap is not empty and the value equals no stored element; \<open>peek\<close> fails exactly when
  the heap holds no elements, and its failure is the \<open>IndexError\<close> of the list read. A
  failure is returned to the caller in place of a heap, so the heap is as before.
  \<open>update\<close> of a value that equals no stored element does not fail: it returns the heap
  unchanged. The \<open>update\<close> of heap\_priority\_queue.py fails in that case as \<open>delete\<close>
  does.
\<close>

theorem C8_heap_misuse:
  "(delete h x = Inl EmptyHeap \<longleftrightarrow> data h = [])
   \<and> (delete h x = Inl ElementNotFound \<longleftrightarrow> data h \<noteq> [] \<and> x \<notin> set (data h))
   \<and> (isl (delete h x) \<longleftrightarrow> x \<notin> set (data h))
   \<and> (peek h = Inl IndexError \<longleftrightarrow> data h = [])
   \<and> (isl (peek h) \<longleftrightarrow> data h = [])
   \<and> (x \<notin> set (data h) \<longrightarrow> update h x new = h)
   \<and> (x \<notin> set (data h) \<longrightarrow>
        update_hpq h x new = Inl (if data h = [] then EmptyHeap else ElementNotFound))"
proof (intro conjI impI)
  show "delete h x = Inl EmptyHeap \<longleftrightarrow> data h = []"
    by (auto simp: delete_def)
  show "delete h x = Inl ElementNotFound \<longleftrightarrow> data h \<noteq> [] \<and> x \<notin> set (data h)"
    by (auto simp: delete_def)
  show "isl (delete h x) \<longleftrightarrow> x \<notin> set (data h)"
    by (auto simp: delete_def)
  show "peek h = Inl IndexError \<longleftrightarrow> data h = []"
    by (simp add: peek_def split: list.splits)
  show "isl (peek h) \<longleftrightarrow> data h = []"
    by (simp add: peek_def split: list.splits)
next
  assume "x \<notin> set (data h)"
  then show "update h x new = h"
    by (simp add: update_def index_of_None[THEN iffD2])
next
  assume "x \<notin> set (data h)"
  then show "update_hpq h x new = Inl (if data h = [] then EmptyHeap else ElementNotFound)"
    by (simp add: update_hpq_def delete_hpq_def)
qed

theorem C8_heap_misuse_witness:
  "delete \<lparr>data = [], config = True\<rparr> (7::int) = Inl EmptyHeap
   \<and> delete \<lparr>data = [5, 3], config = True\<rparr> (7::int) = Inl ElementNotFound
   \<and> peek \<lparr>data = ([]::int list), config = True\<rparr> = Inl IndexError
   \<and> (7::int) \<notin> set (data \<lparr>data = [5, 3], config = True\<rparr>)
   \<and> update \<lparr>data = [5, 3], config = True\<rparr> (7::int) 9 = \<lparr>data = [5, 3], config = True\<rparr>
   \<and> update_hpq \<lparr>data = [5, 3], config = True\<rparr> (7::int) 9 = Inl ElementNotFound"
  using C8_heap_misuse[of "\<lparr>data = [], config = True\<rparr>" "7::int" 9]
    C8_heap_misuse[of "\<lparr>data = [5, 3], config = True\<rparr>" "7::int" 9]
  by simp

text \<open>
  \<open>update\<close> of graph\_heap\_pq.py on a heap that holds only 1, asked to replace the absent
  value 2: no failure, the heap comes back as it was.
\<close>

theorem C8_counterexample:
  "2 \<notin> set (data \<lparr>data = [1::int], config = True\<rparr>)
   \<and> update \<lparr>data = [1::int], config = True\<rparr> 2 3 = \<lparr>data = [1], config = True\<rparr>"
  by (simp add: update_def)

section \<open>Graph construction\<close>

subsection \<open>Adjacency list\<close>

lemma init_adjList:
  "foldl (\<lambda>al v. al(v \<mapsto> [])) al0 vs x = (if x \<in> set vs then Some [] else al0 x)"
  by (induction vs arbitrary: al0) auto

lemma buildAdjList_loop_ok:
  "\<forall>r \<in> set rs. al (fst r) \<noteq> None \<Longrightarrow>
   buildAdjList_loop al rs
     = Inr (\<lambda>x. map_option (\<lambda>ns. ns @ map snd (filter (\<lambda>r. fst r = x) rs)) (al x))"
proof (induction rs arbitrary: al)
  case Nil
  show ?case by (simp add: option.map_ident)
next
  case (Cons r rs)
  obtain u v w where r: "r = (u, v, w)" by (cases r)
  from Cons.prems r obtain ns where ns: "al u = Some ns" by auto
  have "\<forall>r \<in> set rs. (al(u \<mapsto> ns @ [(v, w)])) (fst r) \<noteq> None" using Cons.prems by auto
  note IH = Cons.IH[OF this]
  have step: "buildAdjList_loop al (r # rs) = buildAdjList_loop (al(u \<mapsto> ns @ [(v, w)])) rs"
    using ns r by simp
  have eq: "(\<lambda>x. map_option (\<lambda>ns. ns @ map snd (filter (\<lambda>r. fst r = x) rs))
                ((al(u \<mapsto> ns @ [(v, w)])) x))
          = (\<lambda>x. map_option (\<lambda>ns. ns @ map snd (filter (\<lambda>r. fst r = x) (r # rs))) (al x))"
    by (rule ext) (auto simp: r ns)
  show ?case by (simp only: step IH eq)
qed

lemma buildAdjList_loop_fail:
  "\<exists>r \<in> set rs. al (fst r) = None \<Longrightarrow> buildAdjList_loop al rs = Inl KeyError"
proof (induction rs arbitrary: al)
  case Nil
  then show ?case by simp
next
  case (Cons r rs)
  obtain u v w where r: "r = (u, v, w)" by (cases r)
  show ?case
  proof (cases "al u")
    case None
    then show ?thesis using r by simp
  next
    case (Some ns)
    from Cons.prems obtain r' where r': "r' \<in> set (r # rs)" "al (fst r') = None" by blast
    then have "r' \<in> set rs" "fst r' \<noteq> u" using Some r by auto
    then have "\<exists>r \<in> set rs. (al(u \<mapsto> ns @ [(v, w)])) (fst r) = None"
      using r'(2) by (intro bexI[of _ r']) simp_all
    note IH = Cons.IH[OF this]
    have step: "buildAdjList_loop al (r # rs) = buildAdjList_loop (al(u \<mapsto> ns @ [(v, w)])) rs"
      using Some r by simp
    show ?thesis by (simp only: step IH)
  qed
qed

lemma lab_buildAdjList_loop_ok:
  "\<forall>r \<in> set rs. al (fst r) \<noteq> None \<Longrightarrow>
   lab_buildAdjList_loop al rs
     = Inr (\<lambda>x. map_option (\<lambda>ns. ns @ map snd (filter (\<lambda>r. fst r = x) rs)) (al x))"
proof (induction rs arbitrary: al)
  case Nil
  show ?case by (simp add: option.map_ident)
next
  case (Cons r rs)
  obtain u v where r: "r = (u, v)" by (cases r)
  from Cons.prems r obtain ns where ns: "al u = Some ns" by auto
  have "\<forall>r \<in> set rs. (al(u \<mapsto> ns @ [v])) (fst r) \<noteq> None" using Cons.prems by auto
  note IH = Cons.IH[OF this]
  have step: "lab_buildAdjList_loop al (r # rs) = lab_buildAdjList_loop (al(u \<mapsto> ns @ [v])) rs"
    using ns r by simp
  have eq: "(\<lambda>x. map_option (\<lambda>ns. ns @ map snd (filter (\<lambda>r. fst r = x) rs))
                ((al(u \<mapsto> ns @ [v])) x))
          = (\<lambda>x. map_option (\<lambda>ns. ns @ map snd (filter (\<lambda>r. fst r = x) (r # rs))) (al x))"
    by (rule ext) (auto simp: r ns)
  show ?case by (simp only: step IH eq)
qed

lemma lab_buildAdjList_loop_fail:
  "\<exists>r \<in> set rs. al (fst r) = None \<Longrightarrow> lab_buildAdjList_loop al rs = Inl KeyError"
proof (induction rs arbitrary: al)
  case Nil
  then show ?case by simp
next
  case (Cons r rs)
  obtain u v where r: "r = (u, v)" by (cases r)
  show ?case
  proof (cases "al u")
    case None
    then show ?thesis using r by simp
  next
    case (Some ns)
    from Cons.prems obtain r' where r': "r' \<in> set (r # rs)" "al (fst r') = None" by blast
    then have "r' \<in> set rs" "fst r' \<noteq> u" using Some r by auto
    then have "\<exists>r \<in> set rs. (al(u \<mapsto> ns @ [v])) (fst r) = None"
      using r'(2) by (intro bexI[of _ r']) simp_all
    note IH = Cons.IH[OF this]
    have step: "lab_buildAdjList_loop al (r # rs) = lab_buildAdjList_loop (al(u \<mapsto> ns @ [v])) rs"
      using Some r by simp
    show ?thesis by (simp only: step IH)
  qed
qed

lemma buildAdjList_ok:
  "\<forall>r \<in> set rs. fst r \<in> set vs \<Longrightarrow>
   buildAdjList vs rs
     = Inr (\<lambda>x. if x \<in> set vs then Some (map snd (filter (\<lambda>r. fst r = x) rs)) else None)"
  unfolding buildAdjList_def
  by (subst buildAdjList_loop_ok) (auto simp: init_adjList intro!: ext)

lemma buildAdjList_fail:
  "\<exists>r \<in> set rs. fst r \<notin> set vs \<Longrightarrow> buildAdjList vs rs = Inl KeyError"
  unfolding buildAdjList_def
  by (rule buildAdjList_loop_fail) (auto simp: init_adjList)

lemma lab_buildAdjList_ok:
  "\<forall>r \<in> set rs. fst r \<in> set vs \<Longrightarrow>
   lab_buildAdjList vs rs
     = Inr (\<lambda>x. if x \<in> set vs then Some (map snd (filter (\<lambda>r. fst r = x) rs)) else None)"
  unfolding lab_buildAdjList_def
  by (subst lab_buildAdjList_loop_ok) (auto simp: init_adjList intro!: ext)

lemma lab_buildAdjList_fail:
  "\<exists>r \<in> set rs. fst r \<notin> set vs \<Longrightarrow> lab_buildAdjList vs rs = Inl KeyError"
  unfolding lab_buildAdjList_def
  by (rule lab_buildAdjList_loop_fail) (auto simp: init_adjList)

subsection \<open>Encoding\<close>

lemma buildEncoding_loop_props:
  assumes "buildEncoding_loop vs i (enc, dec) = (enc', dec')"
  shows "(\<forall>v k. enc' v = Some k \<longrightarrow>
            (v \<in> set vs \<and> i \<le> k \<and> k < i + length vs \<and> vs ! (k - i) = v)
            \<or> (v \<notin> set vs \<and> enc v = Some k))
       \<and> (\<forall>v \<in> set vs. enc' v \<noteq> None)
       \<and> (\<forall>v. v \<notin> set vs \<longrightarrow> enc' v = enc v)
       \<and> (\<forall>k. dec' k = (if i \<le> k \<and> k < i + length vs then Some (vs ! (k - i)) else dec k))"
  using assms
proof (induction vs arbitrary: i enc dec)
  case Nil
  then show ?case by auto
next
  case (Cons a vs)
  from Cons.prems
  have step: "buildEncoding_loop vs (i + 1) (enc(a \<mapsto> i), dec(i \<mapsto> a)) = (enc', dec')" by simp
  note IH = Cons.IH[OF step]
  have 1: "(v \<in> set (a # vs) \<and> i \<le> k \<and> k < i + length (a # vs) \<and> (a # vs) ! (k - i) = v)
            \<or> (v \<notin> set (a # vs) \<and> enc v = Some k)" if "enc' v = Some k" for v k
  proof -
    from IH that consider
      (new) "v \<in> set vs" "i + 1 \<le> k" "k < i + 1 + length vs" "vs ! (k - (i + 1)) = v"
      | (old) "v \<notin> set vs" "(enc(a \<mapsto> i)) v = Some k" by blast
    then show ?thesis
    proof cases
      case new
      then have "(a # vs) ! (k - i) = v" by (simp add: nth_Cons') 
      then show ?thesis using new by auto
    next
      case old
      then show ?thesis by (cases "v = a") auto
    qed
  qed
  have 2: "\<forall>v \<in> set (a # vs). enc' v \<noteq> None"
  proof
    fix v assume "v \<in> set (a # vs)"
    then show "enc' v \<noteq> None" using IH by (cases "v \<in> set vs") auto
  qed
  have 3: "\<forall>v. v \<notin> set (a # vs) \<longrightarrow> enc' v = enc v" using IH by auto
  have 4: "dec' k = (if i \<le> k \<and> k < i + length (a # vs) then Some ((a # vs) ! (k - i)) else dec k)" for k
  proof -
    from IH have "dec' k = (if i + 1 \<le> k \<and> k < i + 1 + length vs then Some (vs ! (k - (i + 1)))
                            else (dec(i \<mapsto> a)) k)" by blast
    then show ?thesis by (auto simp: nth_Cons')
  qed
  from 1 2 3 4 show ?case by blast
qed

lemma buildEncoding_props:
  assumes "buildEncoding vs = (enc, dec)"
  shows "enc v = Some k \<Longrightarrow> v \<in> set vs \<and> k < length vs \<and> vs ! k = v"
    and "v \<in> set vs \<Longrightarrow> \<exists>k. enc v = Some k"
    and "v \<notin> set vs \<Longrightarrow> enc v = None"
    and "k < length vs \<Longrightarrow> dec k = Some (vs ! k)"
proof -
  note P = buildEncoding_loop_props[OF assms[unfolded buildEncoding_def]]
  show "enc v = Some k \<Longrightarrow> v \<in> set vs \<and> k < length vs \<and> vs ! k = v"
    using P[THEN conjunct1] by fastforce
  show "v \<in> set vs \<Longrightarrow> \<exists>k. enc v = Some k"
    using P[THEN conjunct2, THEN conjunct1] by auto
  show "v \<notin> set vs \<Longrightarrow> enc v = None"
    using P[THEN conjunct2, THEN conjunct2, THEN conjunct1] by simp
  show "k < length vs \<Longrightarrow> dec k = Some (vs ! k)"
    using P[THEN conjunct2, THEN conjunct2, THEN conjunct2] by simp
qed

subsection \<open>Adjacency matrix\<close>

lemma buildAdjMatrix_loop_ok:
  assumes "length m = n" "\<forall>r<n. length (m ! r) = n" "\<forall>v k. enc v = Some k \<longrightarrow> k < n"
    and "\<forall>r \<in> set rs. enc (fst r) \<noteq> None \<and> enc (fst (snd r)) \<noteq> None"
  shows "\<exists>m'. buildAdjMatrix_loop enc m rs = Inr m' \<and> length m' = n \<and> (\<forall>r<n. length (m' ! r) = n)
           \<and> (\<forall>r<n. \<forall>c<n. m' ! r ! c =
                (let ws = map (\<lambda>x. snd (snd x))
                            (filter (\<lambda>x. enc (fst x) = Some r \<and> enc (fst (snd x)) = Some c) rs)
                 in if ws = [] then m ! r ! c else last ws))"
  using assms
proof (induction rs arbitrary: m)
  case Nil
  then show ?case by simp
next
  case (Cons x rs)
  obtain u v w where x: "x = (u, v, w)" by (cases x)
  from Cons.prems(4) x obtain i j where ij: "enc u = Some i" "enc v = Some j" by auto
  then have lt: "i < n" "j < n" using Cons.prems(3) by auto
  define m1 where "m1 = m[i := (m ! i)[j := w]]"
  have sc: "set_cell m i j w = Inr m1" using lt Cons.prems(1,2) by (simp add: set_cell_def m1_def)
  have l1: "length m1 = n" using Cons.prems(1) by (simp add: m1_def)
  have r1: "\<forall>r<n. length (m1 ! r) = n" using Cons.prems(1,2) lt by (auto simp: m1_def nth_list_update)
  have c1: "m1 ! r ! c = (if r = i \<and> c = j then w else m ! r ! c)" if "r < n" "c < n" for r c
    using that Cons.prems(1,2) lt by (auto simp: m1_def nth_list_update)
  have k1: "\<forall>r \<in> set rs. enc (fst r) \<noteq> None \<and> enc (fst (snd r)) \<noteq> None" using Cons.prems(4) by simp
  from Cons.IH[OF l1 r1 Cons.prems(3) k1] obtain m' where
    m': "buildAdjMatrix_loop enc m1 rs = Inr m'" "length m' = n" "\<forall>r<n. length (m' ! r) = n"
    "\<forall>r<n. \<forall>c<n. m' ! r ! c =
                (let ws = map (\<lambda>x. snd (snd x))
                            (filter (\<lambda>x. enc (fst x) = Some r \<and> enc (fst (snd x)) = Some c) rs)
                 in if ws = [] then m1 ! r ! c else last ws)" by blast
  have "buildAdjMatrix_loop enc m (x # rs) = Inr m'" using x ij sc m'(1) by simp
  moreover have "m' ! r ! c =
                (let ws = map (\<lambda>x. snd (snd x))
                            (filter (\<lambda>x. enc (fst x) = Some r \<and> enc (fst (snd x)) = Some c) (x # rs))
                 in if ws = [] then m ! r ! c else last ws)" if "r < n" "c < n" for r c
    using m'(4) that c1[OF that] x ij by (auto simp: Let_def)
  ultimately show ?case using m'(2,3) by blast
qed

lemma buildAdjMatrix_loop_fail:
  assumes "length m = n" "\<forall>r<n. length (m ! r) = n" "\<forall>v k. enc v = Some k \<longrightarrow> k < n"
    and "\<exists>r \<in> set rs. enc (fst r) = None \<or> enc (fst (snd r)) = None"
  shows "buildAdjMatrix_loop enc m rs = Inl KeyError"
  using assms
proof (induction rs arbitrary: m)
  case Nil
  then show ?case by simp
next
  case (Cons x rs)
  obtain u v w where x: "x = (u, v, w)" by (cases x)
  show ?case
  proof (cases "enc u = None \<or> enc v = None")
    case True
    then show ?thesis using x by (auto split: option.splits)
  next
    case False
    then obtain i j where ij: "enc u = Some i" "enc v = Some j" by auto
    then have lt: "i < n" "j < n" using Cons.prems(3) by auto
    define m1 where "m1 = m[i := (m ! i)[j := w]]"
    have sc: "set_cell m i j w = Inr m1" using lt Cons.prems(1,2) by (simp add: set_cell_def m1_def)
    have l1: "length m1 = n" using Cons.prems(1) by (simp add: m1_def)
    have r1: "\<forall>r<n. length (m1 ! r) = n" using Cons.prems(1,2) lt by (auto simp: m1_def nth_list_update)
    have "\<exists>r \<in> set rs. enc (fst r) = None \<or> enc (fst (snd r)) = None"
      using Cons.prems(4) False x by auto
    from Cons.IH[OF l1 r1 Cons.prems(3) this] show ?thesis using x ij sc by simp
  qed
qed

lemma lab_buildAdjMatrix_loop_eq:
  "lab_buildAdjMatrix_loop enc m rs = buildAdjMatrix_loop enc m (map (\<lambda>(u, v). (u, v, 1)) rs)"
  by (induction rs arbitrary: m) (auto split: option.splits sum.splits)

subsection \<open>The constructors\<close>

lemma set_set_add [simp]: "set (set_add s x) = insert x (set s)"
  by (auto simp: set_add_def)

lemma set_buildRelation_loop:
  "set (buildRelation_loop s e) = set s \<union> set e \<union> (\<lambda>(u, v, w). (v, u, w)) ` set e"
proof (induction e arbitrary: s)
  case Nil
  show ?case by simp
next
  case (Cons r e)
  obtain u v w where r: "r = (u, v, w)" by (cases r)
  show ?case unfolding r buildRelation_loop.simps Cons.IH by auto
qed

lemma iterates_set: "iterates walk \<Longrightarrow> set (walk xs) = set xs"
  unfolding iterates_def by (metis mset_eq_setD)

lemma set_buildRelation:
  "iterates walk \<Longrightarrow>
   set (buildRelation walk dir e)
     = (if dir then set e else set e \<union> (\<lambda>(u, v, w). (v, u, w)) ` set e)"
  by (simp add: buildRelation_def set_buildRelation_loop iterates_set)

lemma buildRelation_known:
  "iterates walk \<Longrightarrow>
   (\<forall>r \<in> set (buildRelation walk dir e). fst r \<in> set vs \<and> fst (snd r) \<in> set vs)
     \<longleftrightarrow> (\<forall>r \<in> set e. fst r \<in> set vs \<and> fst (snd r) \<in> set vs)"
  by (auto simp: set_buildRelation split: if_splits)

lemma buildAdjMatrix_ok:
  assumes "buildEncoding vs = (enc, dec)"
    and "\<forall>r \<in> set rs. fst r \<in> set vs \<and> fst (snd r) \<in> set vs"
  shows "\<exists>m. buildAdjMatrix vs enc rs = Inr m \<and> length m = length vs
           \<and> (\<forall>r<length vs. length (m ! r) = length vs)
           \<and> (\<forall>r<length vs. \<forall>c<length vs. m ! r ! c =
                (let ws = map (\<lambda>x. snd (snd x))
                            (filter (\<lambda>x. enc (fst x) = Some r \<and> enc (fst (snd x)) = Some c) rs)
                 in if ws = [] then 0 else last ws))"
proof -
  have known: "\<forall>r \<in> set rs. enc (fst r) \<noteq> None \<and> enc (fst (snd r)) \<noteq> None"
    using buildEncoding_props(2)[OF assms(1)] assms(2) by fastforce
  have range: "\<forall>v k. enc v = Some k \<longrightarrow> k < length vs"
    using buildEncoding_props(1)[OF assms(1)] by blast
  from buildAdjMatrix_loop_ok[of "replicate (length vs) (replicate (length vs) 0)" "length vs" enc rs,
      OF _ _ range known]
  show ?thesis unfolding buildAdjMatrix_def by (auto simp: Let_def)
qed

lemma buildAdjMatrix_fail:
  assumes "buildEncoding vs = (enc, dec)"
    and "\<exists>r \<in> set rs. fst r \<notin> set vs \<or> fst (snd r) \<notin> set vs"
  shows "buildAdjMatrix vs enc rs = Inl KeyError"
proof -
  have bad: "\<exists>r \<in> set rs. enc (fst r) = None \<or> enc (fst (snd r)) = None"
    using buildEncoding_props(3)[OF assms(1)] assms(2) by blast
  have range: "\<forall>v k. enc v = Some k \<longrightarrow> k < length vs"
    using buildEncoding_props(1)[OF assms(1)] by blast
  from buildAdjMatrix_loop_fail[of "replicate (length vs) (replicate (length vs) 0)" "length vs" enc rs,
      OF _ _ range bad]
  show ?thesis unfolding buildAdjMatrix_def by simp
qed

lemma Graph_init_ok:
  assumes "iterates walk" "\<forall>r \<in> set e. fst r \<in> set v \<and> fst (snd r) \<in> set v"
  shows "\<exists>g. Graph_init walk v e dir vw = Inr g \<and> vertexes g = v
           \<and> relations g = buildRelation walk dir e
           \<and> adjList g = (\<lambda>x. if x \<in> set v
                                then Some (map snd (filter (\<lambda>r. fst r = x) (buildRelation walk dir e)))
                                else None)
           \<and> buildEncoding v = (encoder g, decoder g)
           \<and> buildAdjMatrix v (encoder g) (buildRelation walk dir e) = Inr (adjMat g)"
proof -
  define rs where "rs = buildRelation walk dir e"
  have known: "\<forall>r \<in> set rs. fst r \<in> set v \<and> fst (snd r) \<in> set v"
    using assms buildRelation_known[of walk dir e v] by (simp add: rs_def)
  obtain enc dec where ed: "buildEncoding v = (enc, dec)" by (cases "buildEncoding v")
  from buildAdjMatrix_ok[OF ed known] obtain m where m: "buildAdjMatrix v enc rs = Inr m" by blast
  have al: "buildAdjList v rs
     = Inr (\<lambda>x. if x \<in> set v then Some (map snd (filter (\<lambda>r. fst r = x) rs)) else None)"
    using known by (intro buildAdjList_ok) blast
  show ?thesis
    unfolding Graph_init_def Let_def rs_def[symmetric] by (simp add: al ed m)
qed

lemma Graph_init_fail:
  assumes "iterates walk" "\<exists>r \<in> set e. fst r \<notin> set v \<or> fst (snd r) \<notin> set v"
  shows "Graph_init walk v e dir vw = Inl KeyError"
proof -
  define rs where "rs = buildRelation walk dir e"
  have bad: "\<exists>r \<in> set rs. fst r \<notin> set v \<or> fst (snd r) \<notin> set v"
    using assms buildRelation_known[of walk dir e v] unfolding rs_def by blast
  obtain enc dec where ed: "buildEncoding v = (enc, dec)" by (cases "buildEncoding v")
  show ?thesis
  proof (cases "\<exists>r \<in> set rs. fst r \<notin> set v")
    case True
    then show ?thesis
      unfolding Graph_init_def Let_def rs_def[symmetric] by (simp add: buildAdjList_fail)
  next
    case False
    then have al: "buildAdjList v rs
       = Inr (\<lambda>x. if x \<in> set v then Some (map snd (filter (\<lambda>r. fst r = x) rs)) else None)"
      by (intro buildAdjList_ok) blast
    show ?thesis
      unfolding Graph_init_def Let_def rs_def[symmetric]
      by (simp add: al ed buildAdjMatrix_fail[OF ed bad])
  qed
qed

lemma lab_buildAdjMatrix_ok:
  assumes "buildEncoding vs = (enc, dec)"
    and "\<forall>r \<in> set rs. fst r \<in> set vs \<and> snd r \<in> set vs"
  shows "\<exists>m. lab_buildAdjMatrix vs enc rs = Inr m \<and> length m = length vs
           \<and> (\<forall>r<length vs. length (m ! r) = length vs)
           \<and> (\<forall>r<length vs. \<forall>c<length vs. m ! r ! c =
                (if \<exists>x \<in> set rs. enc (fst x) = Some r \<and> enc (snd x) = Some c then 1 else 0))"
proof -
  define rs3 where "rs3 = map (\<lambda>(u, v). (u, v, 1::int)) rs"
  have known: "\<forall>r \<in> set rs3. fst r \<in> set vs \<and> fst (snd r) \<in> set vs"
    using assms(2) by (auto simp: rs3_def)
  from buildAdjMatrix_ok[OF assms(1) known] obtain m where
    m: "buildAdjMatrix vs enc rs3 = Inr m" "length m = length vs"
      "\<forall>r<length vs. length (m ! r) = length vs"
      "\<forall>r<length vs. \<forall>c<length vs. m ! r ! c =
                (let ws = map (\<lambda>x. snd (snd x))
                            (filter (\<lambda>x. enc (fst x) = Some r \<and> enc (fst (snd x)) = Some c) rs3)
                 in if ws = [] then 0 else last ws)" by blast
  have eq: "lab_buildAdjMatrix vs enc rs = Inr m"
    using m(1) by (simp add: lab_buildAdjMatrix_def buildAdjMatrix_def lab_buildAdjMatrix_loop_eq rs3_def)
  have cell: "m ! r ! c = (if \<exists>x \<in> set rs. enc (fst x) = Some r \<and> enc (snd x) = Some c then 1 else 0)"
    if "r < length vs" "c < length vs" for r c
  proof -
    define ws where "ws = map (\<lambda>x. snd (snd x))
                            (filter (\<lambda>x. enc (fst x) = Some r \<and> enc (fst (snd x)) = Some c) rs3)"
    have mc: "m ! r ! c = (if ws = [] then 0 else last ws)"
      using m(4) that by (simp add: ws_def Let_def)
    have ones: "\<forall>w \<in> set ws. w = 1" by (auto simp: ws_def rs3_def)
    have ne: "ws \<noteq> [] \<longleftrightarrow> (\<exists>x \<in> set rs. enc (fst x) = Some r \<and> enc (snd x) = Some c)"
      by (force simp: ws_def rs3_def filter_empty_conv split_beta)
    show ?thesis
    proof (cases "ws = []")
      case True
      then show ?thesis using mc ne by simp
    next
      case False
      then have "last ws = 1" using ones last_in_set by blast
      then show ?thesis using mc ne False by simp
    qed
  qed
  show ?thesis using eq m(2,3) cell by blast
qed

lemma lab_buildAdjMatrix_fail:
  assumes "buildEncoding vs = (enc, dec)"
    and "\<exists>r \<in> set rs. fst r \<notin> set vs \<or> snd r \<notin> set vs"
  shows "lab_buildAdjMatrix vs enc rs = Inl KeyError"
proof -
  have bad: "\<exists>r \<in> set (map (\<lambda>(u, v). (u, v, 1::int)) rs). fst r \<notin> set vs \<or> fst (snd r) \<notin> set vs"
    using assms(2) by (auto simp: split_beta)
  from buildAdjMatrix_fail[OF assms(1) bad] show ?thesis
    by (simp add: lab_buildAdjMatrix_def buildAdjMatrix_def lab_buildAdjMatrix_loop_eq)
qed

lemma LabGraph_init_ok:
  assumes "\<forall>r \<in> set rs. fst r \<in> set v \<and> snd r \<in> set v"
  shows "\<exists>g. LabGraph_init v rs dir vw = Inr g \<and> lab_vertexes g = v \<and> lab_relations g = rs
           \<and> lab_adjList g = (\<lambda>x. if x \<in> set v
                                then Some (map snd (filter (\<lambda>r. fst r = x) rs)) else None)
           \<and> buildEncoding v = (lab_encoder g, lab_decoder g)
           \<and> lab_buildAdjMatrix v (lab_encoder g) rs = Inr (lab_adjMat g)"
proof -
  obtain enc dec where ed: "buildEncoding v = (enc, dec)" by (cases "buildEncoding v")
  from lab_buildAdjMatrix_ok[OF ed assms] obtain m where m: "lab_buildAdjMatrix v enc rs = Inr m"
    by blast
  have al: "lab_buildAdjList v rs
     = Inr (\<lambda>x. if x \<in> set v then Some (map snd (filter (\<lambda>r. fst r = x) rs)) else None)"
    using assms by (intro lab_buildAdjList_ok) blast
  show ?thesis
    unfolding LabGraph_init_def lab_build_views_def by (simp add: al ed m)
qed

lemma LabGraph_init_fail:
  assumes "\<exists>r \<in> set rs. fst r \<notin> set v \<or> snd r \<notin> set v"
  shows "LabGraph_init v rs dir vw = Inl KeyError"
proof -
  obtain enc dec where ed: "buildEncoding v = (enc, dec)" by (cases "buildEncoding v")
  show ?thesis
  proof (cases "\<exists>r \<in> set rs. fst r \<notin> set v")
    case True
    then show ?thesis
      unfolding LabGraph_init_def lab_build_views_def by (simp add: lab_buildAdjList_fail)
  next
    case False
    then have al: "lab_buildAdjList v rs
       = Inr (\<lambda>x. if x \<in> set v then Some (map snd (filter (\<lambda>r. fst r = x) rs)) else None)"
      by (intro lab_buildAdjList_ok) blast
    show ?thesis
      unfolding LabGraph_init_def lab_build_views_def
      by (simp add: al ed lab_buildAdjMatrix_fail[OF ed assms])
  qed
qed

text \<open>
  C7 (amended). Construction of a graph, weighted (graph\_heap\_pq.py, whatever the order
  in which the relation set of an undirected graph is walked) or unweighted
  (labyrinth\_graph.py), fails exactly when some supplied relation names a source or a
  destination that is not in the vertex sequence, and the failure is the \<open>KeyError\<close> of
  the dict read; in every other case it succeeds, whether or not the vertex sequence
  repeats a vertex.
\<close>

theorem C7_construction:
  "(iterates walk \<longrightarrow>
      (Graph_init walk v e dir vw = Inl KeyError \<longleftrightarrow> (\<exists>(a, b, w) \<in> set e. a \<notin> set v \<or> b \<notin> set v))
      \<and> ((\<exists>g. Graph_init walk v e dir vw = Inr g) \<longleftrightarrow> (\<forall>(a, b, w) \<in> set e. a \<in> set v \<and> b \<in> set v)))
   \<and> (LabGraph_init v' e' dir' vw' = Inl KeyError \<longleftrightarrow> (\<exists>(a, b) \<in> set e'. a \<notin> set v' \<or> b \<notin> set v'))
   \<and> ((\<exists>g. LabGraph_init v' e' dir' vw' = Inr g) \<longleftrightarrow> (\<forall>(a, b) \<in> set e'. a \<in> set v' \<and> b \<in> set v'))"
proof -
  have w: "Graph_init walk v e dir vw = Inl KeyError"
    if "iterates walk" "\<exists>(a, b, w) \<in> set e. a \<notin> set v \<or> b \<notin> set v"
    using that by (intro Graph_init_fail) (auto simp: split_beta)
  have w': "\<exists>g. Graph_init walk v e dir vw = Inr g"
    if "iterates walk" "\<not> (\<exists>(a, b, w) \<in> set e. a \<notin> set v \<or> b \<notin> set v)"
    using that Graph_init_ok[of walk e v dir vw] by (auto simp: split_beta)
  have l: "LabGraph_init v' e' dir' vw' = Inl KeyError" if "\<exists>(a, b) \<in> set e'. a \<notin> set v' \<or> b \<notin> set v'"
    using that by (intro LabGraph_init_fail) (auto simp: split_beta)
  have l': "\<exists>g. LabGraph_init v' e' dir' vw' = Inr g" if "\<not> (\<exists>(a, b) \<in> set e'. a \<notin> set v' \<or> b \<notin> set v')"
    using that LabGraph_init_ok[of e' v' dir' vw'] by (auto simp: split_beta)
  have neg: "(\<forall>(a, b, w) \<in> set e. a \<in> set v \<and> b \<in> set v) \<longleftrightarrow> \<not> (\<exists>(a, b, w) \<in> set e. a \<notin> set v \<or> b \<notin> set v)"
    "(\<forall>(a, b) \<in> set e'. a \<in> set v' \<and> b \<in> set v') \<longleftrightarrow> \<not> (\<exists>(a, b) \<in> set e'. a \<notin> set v' \<or> b \<notin> set v')"
    by (auto simp: split_beta)
  have A: "(Graph_init walk v e dir vw = Inl KeyError \<longleftrightarrow> (\<exists>(a, b, w) \<in> set e. a \<notin> set v \<or> b \<notin> set v))
   \<and> ((\<exists>g. Graph_init walk v e dir vw = Inr g) \<longleftrightarrow> \<not> (\<exists>(a, b, w) \<in> set e. a \<notin> set v \<or> b \<notin> set v))"
    if it: "iterates walk"
  proof (cases "\<exists>(a, b, w) \<in> set e. a \<notin> set v \<or> b \<notin> set v")
    case True
    then show ?thesis using w[OF it True] by simp
  next
    case False
    from w'[OF it False] obtain g where "Graph_init walk v e dir vw = Inr g" by blast
    then show ?thesis using False by simp
  qed
  have B: "(LabGraph_init v' e' dir' vw' = Inl KeyError \<longleftrightarrow> (\<exists>(a, b) \<in> set e'. a \<notin> set v' \<or> b \<notin> set v'))
   \<and> ((\<exists>g. LabGraph_init v' e' dir' vw' = Inr g) \<longleftrightarrow> \<not> (\<exists>(a, b) \<in> set e'. a \<notin> set v' \<or> b \<notin> set v'))"
  proof (cases "\<exists>(a, b) \<in> set e'. a \<notin> set v' \<or> b \<notin> set v'")
    case True
    then show ?thesis using l[OF True] by simp
  next
    case False
    from l'[OF False] obtain g where "LabGraph_init v' e' dir' vw' = Inr g" by blast
    then show ?thesis using False by simp
  qed
  show ?thesis unfolding neg using A B by blast
qed

theorem C7_construction_witness:
  "iterates (rev :: (nat \<times> nat \<times> int) list \<Rightarrow> (nat \<times> nat \<times> int) list)
   \<and> (\<exists>g. Graph_init rev [0, 1::nat] [(0, 1, 5)] False True = Inr g)
   \<and> Graph_init rev [0::nat] [(0, 1, 5)] False True = Inl KeyError
   \<and> (\<exists>g. LabGraph_init [0, 1::nat] [(0, 1)] True True = Inr g)
   \<and> LabGraph_init [0::nat] [(0, 1)] True True = Inl KeyError"
proof -
  have it: "iterates (rev :: (nat \<times> nat \<times> int) list \<Rightarrow> (nat \<times> nat \<times> int) list)"
    by (simp add: iterates_def)
  from C7_construction[of rev "[0, 1::nat]" "[(0, 1, 5)]" False True "[0, 1::nat]" "[(0, 1)]" True True]
    C7_construction[of rev "[0::nat]" "[(0, 1, 5)]" False True "[0::nat]" "[(0, 1)]" True True] it
  show ?thesis by simp
qed

text \<open>
  The vertex sequence 0, 0 repeats a vertex, and construction succeeds: no check of
  uniqueness is made. The graph is directed, so no set is walked.
\<close>

theorem C7_counterexample:
  "\<not> distinct [0, 0::nat] \<and> \<not> isl (Graph_init rev [0, 0::nat] [] True True)"
  by code_simp

section \<open>The two views\<close>

lemma scanRow_ok:
  assumes "\<forall>k. i \<le> k \<and> k < i + length cells \<longrightarrow> dec k = Some (f k)"
  shows "scanRow marked dec i cells
         = Inr (map f (filter (\<lambda>k. marked (cells ! (k - i))) [i ..< i + length cells]))"
  using assms
proof (induction cells arbitrary: i)
  case Nil
  then show ?case by simp
next
  case (Cons c cells)
  have "\<forall>k. i + 1 \<le> k \<and> k < i + 1 + length cells \<longrightarrow> dec k = Some (f k)"
    using Cons.prems by simp
  note IH = Cons.IH[OF this]
  have di: "dec i = Some (f i)" using Cons.prems by simp
  have up: "[i ..< i + length (c # cells)] = i # [i + 1 ..< i + 1 + length cells]"
    by (simp add: upt_rec)
  have fl: "filter (\<lambda>k. marked ((c # cells) ! (k - i))) [i + 1 ..< i + 1 + length cells]
          = filter (\<lambda>k. marked (cells ! (k - (i + 1)))) [i + 1 ..< i + 1 + length cells]"
    by (rule filter_cong) (auto simp: nth_Cons')
  show ?case
    unfolding up by (simp only: scanRow.simps IH di fl filter.simps list.map
        diff_self_eq_0 nth_Cons_0 option.case sum.case split: if_splits) simp
qed

lemma scanRow_set:
  assumes "\<forall>k<length cells. dec k = Some (vs ! k)"
  shows "\<exists>ms. scanRow marked dec 0 cells = Inr ms
           \<and> set ms = {vs ! k | k. k < length cells \<and> marked (cells ! k)}"
proof -
  have "scanRow marked dec 0 cells
         = Inr (map (\<lambda>k. vs ! k) (filter (\<lambda>k. marked (cells ! (k - 0))) [0 ..< 0 + length cells]))"
    by (rule scanRow_ok) (use assms in simp)
  then show ?thesis by auto
qed

text \<open>Two vertices with the same index are the same vertex.\<close>

lemma encoder_inj:
  assumes "buildEncoding vs = (enc, dec)" "enc a = Some k" "enc b = Some k"
  shows "a = b"
  using buildEncoding_props(1)[OF assms(1,2)] buildEncoding_props(1)[OF assms(1,3)] by simp

lemma row_neighbours:
  assumes ed: "buildEncoding vs = (enc, dec)" and x: "enc x = Some k"
    and known: "\<forall>r \<in> set rs. fst r \<in> set vs \<and> dst r \<in> set vs"
    and cell: "\<forall>c<length vs. marked (row ! c) \<longleftrightarrow> (\<exists>r \<in> set rs. enc (fst r) = Some k \<and> enc (dst r) = Some c)"
    and len: "length row = length vs"
  shows "\<exists>ms. scanRow marked dec 0 row = Inr ms \<and> set ms = dst ` {r \<in> set rs. fst r = x}"
proof -
  have "\<forall>c<length row. dec c = Some (vs ! c)"
    using buildEncoding_props(4)[OF ed] len by simp
  from scanRow_set[OF this] obtain ms where
    ms: "scanRow marked dec 0 row = Inr ms" "set ms = {vs ! c | c. c < length row \<and> marked (row ! c)}"
    by blast
  have "{vs ! c | c. c < length row \<and> marked (row ! c)} = dst ` {r \<in> set rs. fst r = x}"
  proof (intro set_eqI iffI)
    fix y assume "y \<in> {vs ! c | c. c < length row \<and> marked (row ! c)}"
    then obtain c where c: "y = vs ! c" "c < length vs" "marked (row ! c)" using len by auto
    then obtain r where r: "r \<in> set rs" "enc (fst r) = Some k" "enc (dst r) = Some c"
      using cell by blast
    have "fst r = x" using encoder_inj[OF ed r(2) x] .
    moreover have "dst r = y" using buildEncoding_props(1)[OF ed r(3)] c(1) by simp
    ultimately show "y \<in> dst ` {r \<in> set rs. fst r = x}" using r(1) by blast
  next
    fix y assume "y \<in> dst ` {r \<in> set rs. fst r = x}"
    then obtain r where r: "r \<in> set rs" "fst r = x" "dst r = y" by blast
    then have "y \<in> set vs" using known by blast
    then obtain c where c: "enc y = Some c" using buildEncoding_props(2)[OF ed] by blast
    then have c2: "c < length vs" "vs ! c = y" using buildEncoding_props(1)[OF ed c] by simp_all
    have "marked (row ! c)" using cell c2(1) r c x by blast
    then show "y \<in> {vs ! c | c. c < length row \<and> marked (row ! c)}" using c2 len by auto
  qed
  then show ?thesis using ms by simp
qed


lemma Graph_init_Inr:
  assumes it: "iterates walk" and g: "Graph_init walk v e dir vw = Inr g"
  shows "\<forall>r \<in> set e. fst r \<in> set v \<and> fst (snd r) \<in> set v"
    and "vertexes g = v" and "relations g = buildRelation walk dir e"
    and "adjList g = (\<lambda>x. if x \<in> set v
                          then Some (map snd (filter (\<lambda>r. fst r = x) (buildRelation walk dir e)))
                          else None)"
    and "buildEncoding v = (encoder g, decoder g)"
    and "buildAdjMatrix v (encoder g) (buildRelation walk dir e) = Inr (adjMat g)"
proof -
  show known: "\<forall>r \<in> set e. fst r \<in> set v \<and> fst (snd r) \<in> set v"
  proof (rule ccontr)
    assume "\<not> ?thesis"
    then have "Graph_init walk v e dir vw = Inl KeyError" by (intro Graph_init_fail[OF it]) blast
    then show False using g by simp
  qed
  from Graph_init_ok[OF it known, of dir vw] g
  show "vertexes g = v" "relations g = buildRelation walk dir e"
    "adjList g = (\<lambda>x. if x \<in> set v
                          then Some (map snd (filter (\<lambda>r. fst r = x) (buildRelation walk dir e)))
                          else None)"
    "buildEncoding v = (encoder g, decoder g)"
    "buildAdjMatrix v (encoder g) (buildRelation walk dir e) = Inr (adjMat g)"
    by auto
qed

lemma LabGraph_init_Inr:
  assumes "LabGraph_init v rs dir vw = Inr g"
  shows "\<forall>r \<in> set rs. fst r \<in> set v \<and> snd r \<in> set v"
    and "lab_adjList g = (\<lambda>x. if x \<in> set v
                          then Some (map snd (filter (\<lambda>r. fst r = x) rs)) else None)"
    and "buildEncoding v = (lab_encoder g, lab_decoder g)"
    and "lab_buildAdjMatrix v (lab_encoder g) rs = Inr (lab_adjMat g)"
proof -
  show known: "\<forall>r \<in> set rs. fst r \<in> set v \<and> snd r \<in> set v"
  proof (rule ccontr)
    assume "\<not> ?thesis"
    then have "LabGraph_init v rs dir vw = Inl KeyError" by (intro LabGraph_init_fail) blast
    then show False using assms by simp
  qed
  from LabGraph_init_ok[OF known, of dir vw] assms
  show "lab_adjList g = (\<lambda>x. if x \<in> set v
                          then Some (map snd (filter (\<lambda>r. fst r = x) rs)) else None)"
    "buildEncoding v = (lab_encoder g, lab_decoder g)"
    "lab_buildAdjMatrix v (lab_encoder g) rs = Inr (lab_adjMat g)"
    by auto
qed

lemma weighted_agreement:
  assumes it: "iterates walk" and g: "Graph_init walk v e dir vw = Inr g"
    and nz: "\<forall>r \<in> set e. snd (snd r) \<noteq> 0" and x: "x \<in> set v"
  shows "\<exists>ns ms. getNeighborsAdjList g x = Inr ns \<and> matrix_neighbors g x = Inr ms
           \<and> fst ` set ns = set ms"
proof -
  define rs where "rs = buildRelation walk dir e"
  note G = Graph_init_Inr[OF it g, folded rs_def]
  have known: "\<forall>r \<in> set rs. fst r \<in> set v \<and> fst (snd r) \<in> set v"
    using G(1) buildRelation_known[OF it, of dir e v] by (simp add: rs_def)
  have nz': "\<forall>r \<in> set rs. snd (snd r) \<noteq> 0"
    using nz by (auto simp: rs_def set_buildRelation[OF it] split: if_splits)
  obtain k where k: "encoder g x = Some k" using buildEncoding_props(2)[OF G(5) x] by blast
  then have kn: "k < length v" using buildEncoding_props(1)[OF G(5) k] by simp
  from buildAdjMatrix_ok[OF G(5) known] G(6) have
    m: "length (adjMat g) = length v" "\<forall>r<length v. length (adjMat g ! r) = length v"
      "\<forall>r<length v. \<forall>c<length v. adjMat g ! r ! c =
                (let ws = map (\<lambda>x. snd (snd x))
                            (filter (\<lambda>x. encoder g (fst x) = Some r \<and> encoder g (fst (snd x)) = Some c) rs)
                 in if ws = [] then 0 else last ws)" by auto
  have cell: "\<forall>c<length v. adjMat g ! k ! c \<noteq> 0
       \<longleftrightarrow> (\<exists>r \<in> set rs. encoder g (fst r) = Some k \<and> encoder g (fst (snd r)) = Some c)"
  proof (intro allI impI)
    fix c assume c: "c < length v"
    define ws where "ws = map (\<lambda>x. snd (snd x))
        (filter (\<lambda>x. encoder g (fst x) = Some k \<and> encoder g (fst (snd x)) = Some c) rs)"
    have mc: "adjMat g ! k ! c = (if ws = [] then 0 else last ws)"
      using m(3) kn c by (simp add: ws_def Let_def)
    have "\<forall>w \<in> set ws. w \<noteq> 0" using nz' by (auto simp: ws_def)
    then have "ws \<noteq> [] \<Longrightarrow> last ws \<noteq> 0" using last_in_set by blast
    moreover have "ws \<noteq> [] \<longleftrightarrow> (\<exists>r \<in> set rs. encoder g (fst r) = Some k \<and> encoder g (fst (snd r)) = Some c)"
      by (auto simp: ws_def filter_empty_conv)
    ultimately show "adjMat g ! k ! c \<noteq> 0
       \<longleftrightarrow> (\<exists>r \<in> set rs. encoder g (fst r) = Some k \<and> encoder g (fst (snd r)) = Some c)"
      using mc by auto
  qed
  from row_neighbours[of v "encoder g" "decoder g" x k rs "\<lambda>r. fst (snd r)" "\<lambda>cell. cell \<noteq> 0" "adjMat g ! k",
      OF G(5) k known cell] m(2) kn
  obtain ms where ms: "scanRow (\<lambda>cell. cell \<noteq> 0) (decoder g) 0 (adjMat g ! k) = Inr ms"
    "set ms = (\<lambda>r. fst (snd r)) ` {r \<in> set rs. fst r = x}" by auto
  have mn: "matrix_neighbors g x = Inr ms" using k kn m(1) ms(1) by (simp add: matrix_neighbors_def)
  have al: "getNeighborsAdjList g x = Inr (map snd (filter (\<lambda>r. fst r = x) rs))"
    using G(4) x by (simp add: getNeighborsAdjList_def)
  have "fst ` set (map snd (filter (\<lambda>r. fst r = x) rs)) = set ms"
    unfolding ms(2) by force
  then show ?thesis using mn al by blast
qed

lemma lab_agreement:
  assumes g: "LabGraph_init v rs dir vw = Inr g" and x: "x \<in> set v"
  shows "\<exists>k ns ms. lab_encoder g x = Some k \<and> lab_getNeighborsAdjList g x = Inr ns
           \<and> lab_getNeighborsMatAdj g k = Inr ms \<and> set ns = set ms"
proof -
  note G = LabGraph_init_Inr[OF g]
  obtain k where k: "lab_encoder g x = Some k" using buildEncoding_props(2)[OF G(3) x] by blast
  then have kn: "k < length v" using buildEncoding_props(1)[OF G(3) k] by simp
  from lab_buildAdjMatrix_ok[OF G(3) G(1)] G(4) have
    m: "length (lab_adjMat g) = length v" "\<forall>r<length v. length (lab_adjMat g ! r) = length v"
      "\<forall>r<length v. \<forall>c<length v. lab_adjMat g ! r ! c =
          (if \<exists>x \<in> set rs. lab_encoder g (fst x) = Some r \<and> lab_encoder g (snd x) = Some c then 1 else 0)"
    by auto
  have cell: "\<forall>c<length v. lab_adjMat g ! k ! c = 1
       \<longleftrightarrow> (\<exists>r \<in> set rs. lab_encoder g (fst r) = Some k \<and> lab_encoder g (snd r) = Some c)"
    using m(3) kn by simp
  from row_neighbours[of v "lab_encoder g" "lab_decoder g" x k rs snd "\<lambda>cell. cell = 1" "lab_adjMat g ! k",
      OF G(3) k G(1) cell] m(2) kn
  obtain ms where ms: "scanRow (\<lambda>cell. cell = 1) (lab_decoder g) 0 (lab_adjMat g ! k) = Inr ms"
    "set ms = snd ` {r \<in> set rs. fst r = x}" by auto
  have mn: "lab_getNeighborsMatAdj g k = Inr ms" using kn m(1) ms(1) by (simp add: lab_getNeighborsMatAdj_def)
  have al: "lab_getNeighborsAdjList g x = Inr (map snd (filter (\<lambda>r. fst r = x) rs))"
    using G(2) x by (simp add: lab_getNeighborsAdjList_def)
  have "set (map snd (filter (\<lambda>r. fst r = x) rs)) = set ms"
    unfolding ms(2) by force
  then show ?thesis using k mn al by blast
qed

text \<open>
  C5 (amended). For every constructed unweighted graph (labyrinth\_graph.py) and every
  vertex \<open>x\<close> of it, the neighbours listed for \<open>x\<close> in the adjacency list and the
  neighbours obtained by \<open>_getNeighborsMatAdj\<close> from row \<open>encoder[x]\<close> of the matrix
  (cells equal to 1, columns decoded) are the same set. For every constructed weighted
  graph (graph\_heap\_pq.py) in which no supplied relation has weight 0, whatever the order
  in which the relation set of an undirected graph is walked, the neighbours in the
  adjacency list of \<open>x\<close> and the decoded columns of the nonzero cells of row
  \<open>encoder[x]\<close> are the same set.
\<close>

theorem C5_matrix_list_agreement:
  "(iterates walk \<and> Graph_init walk v e dir vw = Inr g \<and> (\<forall>(a, b, w) \<in> set e. w \<noteq> 0) \<and> x \<in> set v \<longrightarrow>
      (\<exists>ns ms. getNeighborsAdjList g x = Inr ns \<and> matrix_neighbors g x = Inr ms
          \<and> fst ` set ns = set ms))
   \<and> (LabGraph_init v' e' dir' vw' = Inr g' \<and> x' \<in> set v' \<longrightarrow>
      (\<exists>k ns ms. lab_encoder g' x' = Some k \<and> lab_getNeighborsAdjList g' x' = Inr ns
          \<and> lab_getNeighborsMatAdj g' k = Inr ms \<and> set ns = set ms))"
proof (intro conjI impI)
  assume a: "iterates walk \<and> Graph_init walk v e dir vw = Inr g \<and> (\<forall>(a, b, w) \<in> set e. w \<noteq> 0) \<and> x \<in> set v"
  then have "\<forall>r \<in> set e. snd (snd r) \<noteq> 0" by (auto simp: split_beta)
  with a show "\<exists>ns ms. getNeighborsAdjList g x = Inr ns \<and> matrix_neighbors g x = Inr ms
          \<and> fst ` set ns = set ms"
    using weighted_agreement[of walk v e dir vw g x] by blast
next
  assume "LabGraph_init v' e' dir' vw' = Inr g' \<and> x' \<in> set v'"
  then show "\<exists>k ns ms. lab_encoder g' x' = Some k \<and> lab_getNeighborsAdjList g' x' = Inr ns
          \<and> lab_getNeighborsMatAdj g' k = Inr ms \<and> set ns = set ms"
    using lab_agreement[of v' e' dir' vw' g' x'] by blast
qed

text \<open>
  A directed weighted graph with the single relation \<open>(0, 1, 0)\<close>: the adjacency list of
  0 holds the neighbour 1, row 0 of the matrix holds only zeros.
\<close>

theorem C5_counterexample:
  "(case Graph_init rev [0, 1::nat] [(0, 1, 0)] True True of
      Inl err \<Rightarrow> Inl err
    | Inr g \<Rightarrow> Inr (getNeighborsAdjList g 0, matrix_neighbors g 0, adjMat g))
   = Inr (Inr [(1, 0)], Inr [], [[0, 0], [0, 0]])"
  by code_simp

theorem C5_matrix_list_agreement_witness:
  "iterates (rev :: (nat \<times> nat \<times> int) list \<Rightarrow> (nat \<times> nat \<times> int) list)
   \<and> getNeighborsAdjList (projr (Graph_init rev [0, 1, 2::nat] [(0, 1, 5), (0, 2, 7), (1, 2, 3)] False True)) 0
     = Inr [(2, 7), (1, 5)]
   \<and> matrix_neighbors (projr (Graph_init rev [0, 1, 2::nat] [(0, 1, 5), (0, 2, 7), (1, 2, 3)] False True)) 0
     = Inr [1, 2]
   \<and> (\<exists>ns ms. getNeighborsAdjList
                 (projr (Graph_init rev [0, 1, 2::nat] [(0, 1, 5), (0, 2, 7), (1, 2, 3)] False True)) 0 = Inr ns
        \<and> matrix_neighbors
                 (projr (Graph_init rev [0, 1, 2::nat] [(0, 1, 5), (0, 2, 7), (1, 2, 3)] False True)) 0 = Inr ms
        \<and> fst ` set ns = set ms)
   \<and> (\<exists>k ns ms. lab_encoder (projr (LabGraph_init [0, 1, 2::nat] [(0, 2), (0, 1)] True True)) 0 = Some k
        \<and> lab_getNeighborsAdjList (projr (LabGraph_init [0, 1, 2::nat] [(0, 2), (0, 1)] True True)) 0 = Inr ns
        \<and> lab_getNeighborsMatAdj (projr (LabGraph_init [0, 1, 2::nat] [(0, 2), (0, 1)] True True)) k = Inr ms
        \<and> set ns = set ms)"
proof -
  define G where "G = Graph_init rev [0, 1, 2::nat] [(0, 1, 5), (0, 2, 7), (1, 2, 3)] False True"
  define L where "L = LabGraph_init [0, 1, 2::nat] [(0, 2), (0, 1)] True True"
  have it: "iterates (rev :: (nat \<times> nat \<times> int) list \<Rightarrow> (nat \<times> nat \<times> int) list)"
    by (simp add: iterates_def)
  have "\<not> isl G" "\<not> isl L" unfolding G_def L_def by code_simp+
  then have g: "G = Inr (projr G)" and l: "L = Inr (projr L)" by simp_all
  have nz: "\<forall>(a, b, w) \<in> set [(0::nat, 1::nat, 5::int), (0, 2, 7), (1, 2, 3)]. w \<noteq> 0" by simp
  have e1: "getNeighborsAdjList (projr G) 0 = Inr [(2, 7), (1, 5)]" unfolding G_def by code_simp
  have e2: "matrix_neighbors (projr G) 0 = Inr [1, 2]" unfolding G_def by code_simp
  from C5_matrix_list_agreement[of rev "[0, 1, 2::nat]" "[(0, 1, 5), (0, 2, 7), (1, 2, 3)]" False True
      "projr G" 0 "[0, 1, 2::nat]" "[(0, 2), (0, 1)]" True True "projr L" 0]
    it g l nz e1 e2
  show ?thesis unfolding G_def L_def by simp
qed

section \<open>Undirected graphs\<close>

lemma matrix_cell_value:
  assumes ed: "buildEncoding v = (enc, dec)"
    and known: "\<forall>r \<in> set rs. fst r \<in> set v \<and> fst (snd r) \<in> set v"
    and m: "buildAdjMatrix v enc rs = Inr m"
    and mem: "(a, b, w) \<in> set rs" and uniq: "\<forall>w'. (a, b, w') \<in> set rs \<longrightarrow> w' = w"
    and i: "enc a = Some i" and j: "enc b = Some j"
  shows "m ! i ! j = w"
proof -
  have lt: "i < length v" "j < length v"
    using buildEncoding_props(1)[OF ed i] buildEncoding_props(1)[OF ed j] by simp_all
  define ws where "ws = map (\<lambda>x. snd (snd x))
      (filter (\<lambda>x. enc (fst x) = Some i \<and> enc (fst (snd x)) = Some j) rs)"
  from buildAdjMatrix_ok[OF ed known] m lt
  have mc: "m ! i ! j = (if ws = [] then 0 else last ws)" by (auto simp: ws_def Let_def)
  have "w \<in> set ws" using mem i j by (force simp: ws_def)
  then have ne: "ws \<noteq> []" by auto
  have "w' = w" if "w' \<in> set ws" for w'
  proof -
    from that obtain r where r: "r \<in> set rs" "enc (fst r) = Some i" "enc (fst (snd r)) = Some j"
      "snd (snd r) = w'" by (auto simp: ws_def)
    have "fst r = a" "fst (snd r) = b"
      using encoder_inj[OF ed r(2) i] encoder_inj[OF ed r(3) j] by simp_all
    then have "r = (a, b, w')" using r(4) by (cases r) auto
    then show ?thesis using uniq r(1) by blast
  qed
  then have "last ws = w" using ne last_in_set by blast
  then show ?thesis using mc ne by simp
qed

text \<open>
  C6 (amended). For every weighted graph (graph\_heap\_pq.py) constructed with
  \<open>directed=False\<close>, whatever the order in which its relation set is walked, and every
  supplied relation \<open>(a, b, w)\<close>: the adjacency list of \<open>a\<close> holds \<open>(b, w)\<close> and the
  adjacency list of \<open>b\<close> holds \<open>(a, w)\<close>; and if every supplied relation between \<open>a\<close> and
  \<open>b\<close>, in either direction, has the weight \<open>w\<close>, the matrix cells
  \<open>[encoder[a]][encoder[b]]\<close> and \<open>[encoder[b]][encoder[a]]\<close> both hold \<open>w\<close>. The
  symmetric relations are computed once, by \<open>_buildRelation\<close> in the constructor.
\<close>

theorem C6_undirected_symmetry:
  "iterates walk \<and> Graph_init walk v e False vw = Inr g \<and> (a, b, w) \<in> set e \<longrightarrow>
     (\<exists>na nb. adjList g a = Some na \<and> adjList g b = Some nb \<and> (b, w) \<in> set na \<and> (a, w) \<in> set nb)
     \<and> ((\<forall>(a', b', w') \<in> set e. (a' = a \<and> b' = b \<or> a' = b \<and> b' = a) \<longrightarrow> w' = w) \<longrightarrow>
          (\<exists>i j. encoder g a = Some i \<and> encoder g b = Some j
             \<and> adjMat g ! i ! j = w \<and> adjMat g ! j ! i = w))"
proof (intro impI, elim conjE)
  assume it: "iterates walk" and g: "Graph_init walk v e False vw = Inr g" and mem: "(a, b, w) \<in> set e"
  define rs where "rs = buildRelation walk False e"
  note G = Graph_init_Inr[OF it g, folded rs_def]
  have known: "\<forall>r \<in> set rs. fst r \<in> set v \<and> fst (snd r) \<in> set v"
    using G(1) buildRelation_known[OF it, of False e v] by (simp add: rs_def)
  have set_rs: "set rs = set e \<union> (\<lambda>(u, v, w). (v, u, w)) ` set e"
    by (simp add: rs_def set_buildRelation[OF it])
  have ab: "(a, b, w) \<in> set rs" and ba: "(b, a, w) \<in> set rs"
    using mem unfolding set_rs by force+
  have av: "a \<in> set v" and bv: "b \<in> set v" using known ab by auto
  have lists: "\<exists>na nb. adjList g a = Some na \<and> adjList g b = Some nb \<and> (b, w) \<in> set na \<and> (a, w) \<in> set nb"
    using av bv ab ba unfolding G(4) by force
  have cells: "\<exists>i j. encoder g a = Some i \<and> encoder g b = Some j
             \<and> adjMat g ! i ! j = w \<and> adjMat g ! j ! i = w"
    if same: "\<forall>(a', b', w') \<in> set e. (a' = a \<and> b' = b \<or> a' = b \<and> b' = a) \<longrightarrow> w' = w"
  proof -
    obtain i j where i: "encoder g a = Some i" and j: "encoder g b = Some j"
      using buildEncoding_props(2)[OF G(5)] av bv by blast
    have u1: "\<forall>w'. (a, b, w') \<in> set rs \<longrightarrow> w' = w" using same unfolding set_rs by force
    have u2: "\<forall>w'. (b, a, w') \<in> set rs \<longrightarrow> w' = w" using same unfolding set_rs by force
    have "adjMat g ! i ! j = w" using matrix_cell_value[OF G(5) known G(6) ab u1 i j] .
    moreover have "adjMat g ! j ! i = w" using matrix_cell_value[OF G(5) known G(6) ba u2 j i] .
    ultimately show ?thesis using i j by blast
  qed
  show "(\<exists>na nb. adjList g a = Some na \<and> adjList g b = Some nb \<and> (b, w) \<in> set na \<and> (a, w) \<in> set nb)
     \<and> ((\<forall>(a', b', w') \<in> set e. (a' = a \<and> b' = b \<or> a' = b \<and> b' = a) \<longrightarrow> w' = w) \<longrightarrow>
          (\<exists>i j. encoder g a = Some i \<and> encoder g b = Some j
             \<and> adjMat g ! i ! j = w \<and> adjMat g ! j ! i = w))"
    using lists cells by blast
qed

theorem C6_undirected_symmetry_witness:
  "iterates (rev :: (nat \<times> nat \<times> int) list \<Rightarrow> (nat \<times> nat \<times> int) list)
   \<and> relations (projr (Graph_init rev [0, 1::nat] [(0, 1, 4)] False True)) = [(1, 0, 4), (0, 1, 4)]
   \<and> adjList (projr (Graph_init rev [0, 1::nat] [(0, 1, 4)] False True)) 0 = Some [(1, 4)]
   \<and> adjList (projr (Graph_init rev [0, 1::nat] [(0, 1, 4)] False True)) 1 = Some [(0, 4)]
   \<and> adjMat (projr (Graph_init rev [0, 1::nat] [(0, 1, 4)] False True)) = [[0, 4], [4, 0]]
   \<and> (\<exists>na nb. adjList (projr (Graph_init rev [0, 1::nat] [(0, 1, 4)] False True)) 0 = Some na
         \<and> adjList (projr (Graph_init rev [0, 1::nat] [(0, 1, 4)] False True)) 1 = Some nb
         \<and> (1, 4) \<in> set na \<and> (0, 4) \<in> set nb)
   \<and> (\<exists>i j. encoder (projr (Graph_init rev [0, 1::nat] [(0, 1, 4)] False True)) 0 = Some i
         \<and> encoder (projr (Graph_init rev [0, 1::nat] [(0, 1, 4)] False True)) 1 = Some j
         \<and> adjMat (projr (Graph_init rev [0, 1::nat] [(0, 1, 4)] False True)) ! i ! j = 4
         \<and> adjMat (projr (Graph_init rev [0, 1::nat] [(0, 1, 4)] False True)) ! j ! i = 4)"
proof -
  define G where "G = Graph_init rev [0, 1::nat] [(0, 1, 4)] False True"
  have it: "iterates (rev :: (nat \<times> nat \<times> int) list \<Rightarrow> (nat \<times> nat \<times> int) list)"
    by (simp add: iterates_def)
  have "\<not> isl G" unfolding G_def by code_simp
  then have g: "G = Inr (projr G)" by simp
  have e0: "relations (projr G) = [(1, 0, 4), (0, 1, 4)]" unfolding G_def by code_simp
  have e1: "adjList (projr G) 0 = Some [(1, 4)]" unfolding G_def by code_simp
  have e2: "adjList (projr G) 1 = Some [(0, 4)]" unfolding G_def by code_simp
  have e3: "adjMat (projr G) = [[0, 4], [4, 0]]" unfolding G_def by code_simp
  have same: "\<forall>(a', b', w') \<in> set [(0::nat, 1::nat, 4::int)]. (a' = 0 \<and> b' = 1 \<or> a' = 1 \<and> b' = 0) \<longrightarrow> w' = 4"
    by simp
  from C6_undirected_symmetry[of rev "[0, 1::nat]" "[(0, 1, 4)]" True "projr G" 0 1 4]
    it g same e0 e1 e2 e3
  show ?thesis unfolding G_def by simp
qed

subsection \<open>Two relations between the same vertices with different weights\<close>

lemma interleave_mem: "ys1 @ x # ys2 \<in> set (interleave x (ys1 @ ys2))"
proof (induction ys1)
  case Nil
  show ?case by (cases ys2) simp_all
next
  case (Cons y ys1)
  then show ?case by simp
qed

text \<open>\<open>walks xs\<close> holds every list with the elements of \<open>xs\<close>.\<close>

lemma walks_complete: "mset ys = mset xs \<Longrightarrow> ys \<in> set (walks xs)"
proof (induction xs arbitrary: ys)
  case Nil
  then show ?case by simp
next
  case (Cons x xs)
  then have "x \<in> set ys" by (metis list.set_intros(1) mset_eq_setD)
  then obtain ys1 ys2 where ys: "ys = ys1 @ x # ys2" by (meson split_list)
  then have "mset (ys1 @ ys2) = mset xs" using Cons.prems by simp
  then have "ys1 @ ys2 \<in> set (walks xs)" by (rule Cons.IH)
  then show ?case using interleave_mem[of ys1 x ys2] ys by auto
qed

lemma every_walk_of_the_four:
  "list_all
     (\<lambda>rs. case Graph_init (\<lambda>xs. rs) [0, 1::nat] [(0, 1, 1), (0, 1, 2)] False True of
             Inl err \<Rightarrow> False
           | Inr g \<Rightarrow> \<not> list_all (reverse_in_matrix g) [(0, 1, 1), (0, 1, 2)])
     (walks [(0, 1, 1), (1, 0, 1), (0, 1, 2), (1, 0, 2)])"
  by code_simp

text \<open>
  Whatever walk of its relation set the constructor meets, the undirected graph on 0, 1
  with the relations \<open>(0, 1, 1)\<close> and \<open>(0, 1, 2)\<close> is built, and one of the two has no
  reverse of its weight in the matrix.
\<close>

lemma symmetry_fails_for_every_walk:
  assumes "iterates walk"
  shows "case Graph_init walk [0, 1::nat] [(0, 1, 1), (0, 1, 2)] False True of
           Inl err \<Rightarrow> False
         | Inr g \<Rightarrow> \<not> list_all (reverse_in_matrix g) [(0, 1, 1), (0, 1, 2)]"
proof -
  define S :: "nat relation list" where "S = [(0, 1, 1), (1, 0, 1), (0, 1, 2), (1, 0, 2)]"
  have loop: "buildRelation_loop [] [(0::nat, 1::nat, 1::int), (0, 1, 2)] = S"
    by (simp add: S_def set_add_def)
  have br: "buildRelation walk False [(0::nat, 1::nat, 1::int), (0, 1, 2)] = walk S"
    "buildRelation (\<lambda>xs. walk S) False [(0::nat, 1::nat, 1::int), (0, 1, 2)] = walk S"
    by (simp_all only: buildRelation_def loop if_False)
  have eq: "Graph_init walk [0, 1] [(0, 1, 1), (0, 1, 2)] False True
          = Graph_init (\<lambda>xs. walk S) [0, 1] [(0, 1, 1), (0, 1, 2)] False True"
    by (simp only: Graph_init_def br)
  have "walk S \<in> set (walks S)" using assms by (intro walks_complete) (simp add: iterates_def)
  then show ?thesis
    using every_walk_of_the_four unfolding eq S_def[symmetric] by (simp add: list_all_iff)
qed

text \<open>
  The relations \<open>(0, 1, 1)\<close> and \<open>(0, 1, 2)\<close> are supplied to an undirected weighted
  graph on the vertices 0, 1. The set holds them and their reverses; CPython 3.11 walks
  it in the order \<open>(0, 1, 2)\<close>, \<open>(1, 0, 1)\<close>, \<open>(1, 0, 2)\<close>, \<open>(0, 1, 1)\<close>. With that walk the
  matrix is \<open>[[0, 1], [2, 0]]\<close>: the cell of the reverse pair \<open>(1, 0)\<close> holds 2, so the
  reverse of \<open>(0, 1, 1)\<close> is not in the matrix with weight 1. The second part goes through
  all 24 walks of the four elements: in each, one of the two supplied relations has no
  reverse of its weight in the matrix, since the cell holds one number.
\<close>

theorem C6_counterexample:
  "(case Graph_init
           (\<lambda>xs. if xs = [(0, 1, 1), (1, 0, 1), (0, 1, 2), (1, 0, 2)]
                 then [(0, 1, 2), (1, 0, 1), (1, 0, 2), (0, 1, 1)] else xs)
           [0, 1::nat] [(0, 1, 1), (0, 1, 2)] False True of
      Inl err \<Rightarrow> Inl err
    | Inr g \<Rightarrow> Inr (relations g, adjMat g, reverse_in_matrix g (0, 1, 1), reverse_in_matrix g (0, 1, 2)))
   = Inr ([(0, 1, 2), (1, 0, 1), (1, 0, 2), (0, 1, 1)], [[0, 1], [2, 0]], False, True)
   \<and> list_all
       (\<lambda>rs. case Graph_init (\<lambda>xs. rs) [0, 1::nat] [(0, 1, 1), (0, 1, 2)] False True of
               Inl err \<Rightarrow> False
             | Inr g \<Rightarrow> \<not> list_all (reverse_in_matrix g) [(0, 1, 1), (0, 1, 2)])
       (walks [(0, 1, 1), (1, 0, 1), (0, 1, 2), (1, 0, 2)])"
  by code_simp

text \<open>
  The constructor of labyrinth\_graph.py does not read \<open>directed\<close>: with
  \<open>directed=False\<close> and the relation \<open>(0, 1)\<close>, vertex 1 has no neighbour and cell
  \<open>[1][0]\<close> is 0. The method \<open>_init_\<close> would have added the reverse, in either walk of
  its set.
\<close>

lemma LabGraph_init_ignores_directed:
  "(case LabGraph_init [0, 1::nat] [(0, 1)] False True of
      Inl err \<Rightarrow> Inl err
    | Inr g \<Rightarrow> Inr (lab_adjList g 0, lab_adjList g 1, lab_adjMat g))
   = Inr (Some [1], Some [], [[0, 1], [0, 0]])
   \<and> list_all
       (\<lambda>rs. (case LabGraph_init_alt (\<lambda>xs. rs) [0, 1::nat] [(0, 1)] False True of
                 Inl err \<Rightarrow> Inl err
               | Inr g \<Rightarrow> Inr (lab_adjList g 0, lab_adjList g 1, lab_adjMat g))
              = Inr (Some [1], Some [0], [[0, 1], [1, 0]]))
       (walks [(0, 1), (1, 0)])"
  by code_simp

section \<open>Paths\<close>

lemma getPath_loop_chain:
  "is_root vp (hd (pre @ [c])) \<Longrightarrow> parent_links vp (pre @ [c]) \<Longrightarrow>
   getPath_loop vp c (c # rest) = Some (Inr (pre @ c # rest))"
proof (induction pre arbitrary: c rest rule: rev_induct)
  case Nil
  then show ?case
    by (subst getPath_loop.simps) (auto simp: is_root_def split: option.splits)
next
  case (snoc q pre)
  have links: "parent_links vp (pre @ [q, c])" using snoc.prems(2) by simp
  have split: "parent_links vp (xs @ [q, c]) \<longleftrightarrow>
      (case vp c of None \<Rightarrow> False | Some p \<Rightarrow> parent p = Some q) \<and> parent_links vp (xs @ [q])" for xs
    by (induction vp xs rule: parent_links.induct) (auto split: option.splits)
  from links split obtain p where p: "vp c = Some p" "parent p = Some q"
    and l': "parent_links vp (pre @ [q])" by (auto split: option.splits)
  have r': "is_root vp (hd (pre @ [q]))" using snoc.prems(1) by (cases pre) auto
  have "getPath_loop vp c (c # rest) = getPath_loop vp q (q # c # rest)"
    by (subst getPath_loop.simps) (simp add: p)
  also have "\<dots> = Some (Inr (pre @ q # c # rest))" using snoc.IH[OF r' l'] .
  finally show ?case by simp
qed


text \<open>
  C9 (amended). \<open>getPath\<close> has no test of the distance and never fails with
  \<open>Unreachable\<close>. For a target that has an entry without parent - in particular one whose
  recorded distance is infinity - it returns the one-element sequence of the target.
  Whenever the parent links of the table form a sequence that starts at a vertex without
  parent and ends at the target, it returns exactly that sequence, from that vertex to
  the target.
\<close>

theorem C9_getPath:
  "(vp t = Some p \<and> distance p = Infty \<and> parent p = None \<longrightarrow> getPath t vp = Some (Inr [t]))
   \<and> (path \<noteq> [] \<and> is_root vp (hd path) \<and> parent_links vp path \<longrightarrow>
        getPath (last path) vp = Some (Inr path))"
proof (intro conjI impI)
  assume "vp t = Some p \<and> distance p = Infty \<and> parent p = None"
  then show "getPath t vp = Some (Inr [t])"
    unfolding getPath_def by (subst getPath_loop.simps) simp
next
  assume a: "path \<noteq> [] \<and> is_root vp (hd path) \<and> parent_links vp path"
  then obtain pre c where pc: "path = pre @ [c]" by (metis rev_exhaust)
  from getPath_loop_chain[of vp pre c "[]"] a pc
  show "getPath (last path) vp = Some (Inr path)" by (simp add: getPath_def)
qed

theorem C9_getPath_witness:
  "getPath (2::nat) [0 \<mapsto> \<lparr>color = BLACK, distance = Fin 0, parent = None\<rparr>,
                     1 \<mapsto> \<lparr>color = BLACK, distance = Fin 1, parent = Some 0\<rparr>,
                     2 \<mapsto> \<lparr>color = WHITE, distance = Infty, parent = None\<rparr>] = Some (Inr [2])
   \<and> getPath (1::nat) [0 \<mapsto> \<lparr>color = BLACK, distance = Fin 0, parent = None\<rparr>,
                     1 \<mapsto> \<lparr>color = BLACK, distance = Fin 1, parent = Some 0\<rparr>,
                     2 \<mapsto> \<lparr>color = WHITE, distance = Infty, parent = None\<rparr>] = Some (Inr [0, 1])"
proof -
  define vp :: "nat table" where
    "vp = [0 \<mapsto> \<lparr>color = BLACK, distance = Fin 0, parent = None\<rparr>,
           1 \<mapsto> \<lparr>color = BLACK, distance = Fin 1, parent = Some 0\<rparr>,
           2 \<mapsto> \<lparr>color = WHITE, distance = Infty, parent = None\<rparr>]"
  have h1: "vp 2 = Some \<lparr>color = WHITE, distance = Infty, parent = None\<rparr>
      \<and> distance \<lparr>color = WHITE, distance = Infty, parent = (None::nat option)\<rparr> = Infty
      \<and> parent \<lparr>color = WHITE, distance = Infty, parent = (None::nat option)\<rparr> = None"
    by (simp add: vp_def)
  have h2: "[0, 1::nat] \<noteq> [] \<and> is_root vp (hd [0, 1]) \<and> parent_links vp [0, 1]"
    by (simp add: vp_def is_root_def)
  from C9_getPath[of vp 2 "\<lparr>color = WHITE, distance = Infty, parent = None\<rparr>" "[0, 1]"] h1 h2
  show ?thesis unfolding vp_def by simp
qed

text \<open>
  The table of \<open>bfs\<close> from 0 on the vertices 0, 1 of a directed graph without
  relations: vertex 1 keeps the distance infinity, and \<open>getPath\<close> returns the sequence
  that holds only 1; it does not fail.
\<close>

theorem C9_counterexample:
  "\<not> isl (Graph_init rev [0, 1::nat] [] True True)
   \<and> map_option (map_sum id (\<lambda>vp. (map_option distance (vp 1), getPath 1 vp)))
        (bfs (projr (Graph_init rev [0, 1::nat] [] True True)) 0)
     = Some (Inr (Some Infty, Some (Inr [1])))"
  by code_simp

section \<open>Breadth-first search from a source with a relation to itself\<close>

text \<open>
  C3 (code at a failing input). Vertices 0, 1 and the directed relations \<open>(0, 0, 1)\<close>,
  \<open>(0, 1, 1)\<close>: vertex 0 is at 0 edges from itself and vertex 1 at one edge. \<open>bfs\<close> of
  graph\_heap\_pq.py from 0 returns the distances 1 and 2. \<open>_buildVProps\<close> of this file
  leaves the source white, so the source is discovered again through its own relation:
  its distance becomes 1, and the distance of vertex 1 is computed from that.
\<close>

theorem C3_bfs_source_rediscovered:
  "\<not> isl (Graph_init walk [0, 1::nat] [(0, 0, 1), (0, 1, 1)] True True)
   \<and> map_option (map_sum id (\<lambda>vp. map (\<lambda>v. map_option distance (vp v)) [0, 1]))
        (bfs (projr (Graph_init walk [0, 1::nat] [(0, 0, 1), (0, 1, 1)] True True)) 0)
     = Some (Inr [Some (Fin 1), Some (Fin 2)])"
  by code_simp

section \<open>Parent chains that never end\<close>

lemma getPath_loop_self_parent:
  assumes "vp t = Some p" "parent p = Some t"
  shows "getPath_loop vp t path = None"
proof (rule ccontr)
  assume "getPath_loop vp t path \<noteq> None"
  then obtain y where y: "getPath_loop vp t path = Some y" by auto
  from y have "\<not> (vp = vp \<and> t = t)"
  proof (rule getPath_loop.raw_induct[where P = "\<lambda>v c pa y. \<not> (v = vp \<and> c = t)", rotated],
      goal_cases)
    case (1 f v c pa ya)
    show ?case
    proof
      assume "v = vp \<and> c = t"
      with 1(2) assms have "f vp t (t # pa) = Some ya" by simp
      from 1(1)[OF this] show False by simp
    qed
  qed
  then show False by simp
qed

text \<open>
  C10 (code at a failing input). On the same graph, the table of \<open>bfs\<close> from 0 records
  vertex 0 as its own parent and as the parent of vertex 1. Following the parent links
  from 0 or from 1 never reaches a vertex without parent, and \<open>getPath\<close> does not return
  for either vertex.
\<close>

theorem C10_bfs_parent_cycle:
  "\<exists>g vp. Graph_init walk [0, 1::nat] [(0, 0, 1), (0, 1, 1)] True True = Inr g
      \<and> bfs g 0 = Some (Inr vp)
      \<and> map_option parent (vp 0) = Some (Some 0)
      \<and> map_option parent (vp 1) = Some (Some 0)
      \<and> getPath 0 vp = None \<and> getPath 1 vp = None"
proof -
  define G where "G = Graph_init walk [0, 1::nat] [(0, 0, 1), (0, 1, 1)] True True"
  define R where "R = bfs (projr G) 0"
  define vp where "vp = projr (the R)"
  have "\<not> isl G" unfolding G_def by code_simp
  then have g: "G = Inr (projr G)" by simp
  have "R \<noteq> None \<and> \<not> isl (the R)" unfolding R_def G_def by code_simp
  then have r: "R = Some (Inr vp)" by (auto simp: vp_def)
  have p0: "map_option parent (vp 0) = Some (Some 0)" unfolding vp_def R_def G_def by code_simp
  have p1: "map_option parent (vp 1) = Some (Some 0)" unfolding vp_def R_def G_def by code_simp
  from p0 obtain q0 where q0: "vp 0 = Some q0" "parent q0 = Some 0" by auto
  from p1 obtain q1 where q1: "vp 1 = Some q1" "parent q1 = Some 0" by auto
  have l0: "getPath_loop vp 0 path = None" for path
    using getPath_loop_self_parent[of vp 0 q0 path, OF q0] .
  have g0: "getPath 0 vp = None" by (simp add: getPath_def l0)
  have g1: "getPath 1 vp = None"
    unfolding getPath_def using q1 by (subst getPath_loop.simps) (simp add: l0)
  show ?thesis using g r p0 p1 g0 g1 unfolding G_def R_def by blast
qed

end
